theory Spec2Isabelle
  imports Complex_Main
begin

section \<open>Constants of app.py\<close>

definition RATE_LIMIT :: int where
  "RATE_LIMIT = 100"

definition MAX_RETRIES :: nat where
  "MAX_RETRIES = 5"

definition MAX_WORKERS :: nat where
  "MAX_WORKERS = 20"

text \<open>\<^verbatim>\<open>string.ascii_lowercase\<close>.\<close>

definition ascii_lowercase :: string where
  "ascii_lowercase = ''abcdefghijklmnopqrstuvwxyz''"

section \<open>The endpoint and the clock\<close>

text \<open>
  Time is in seconds, as \<^verbatim>\<open>time.time()\<close> reports it. The program holds times as
  floating-point numbers, whose differences are rounded: the subtraction it computes with
  is a parameter, \<open>subtraction\<close>, of which nothing is assumed. The parsed JSON body of a
  200 response is a dictionary in which the keys \<^verbatim>\<open>results\<close> and \<^verbatim>\<open>count\<close> may each be
  absent. The endpoint is given by its answer to the k-th attempt (from 0) for a query,
  and by how long that attempt takes.
\<close>

type_synonym time = rat

type_synonym subtraction = "time \<Rightarrow> time \<Rightarrow> time"

record body =
  results :: "string list option"
  count :: "int option"

datatype reply = Response nat body | RequestException

record endpoint =
  answer :: "string \<Rightarrow> nat \<Rightarrow> reply"
  latency :: "string \<Rightarrow> nat \<Rightarrow> time"

section \<open>RateLimiter (app.py)\<close>

datatype error = IndexError

record RateLimiter =
  limit :: int
  window :: time
  timestamps :: "time list"

text \<open>\<^verbatim>\<open>add_request\<close>: drop the leading timestamps older than the window, append now.\<close>

definition add_request :: "subtraction \<Rightarrow> time \<Rightarrow> RateLimiter \<Rightarrow> RateLimiter" where
  "add_request fsub now rl =
     rl\<lparr>timestamps := dropWhile (\<lambda>t. t < fsub now (window rl)) (timestamps rl) @ [now]\<rparr>"

text \<open>
  \<^verbatim>\<open>wait_if_needed\<close> returns the time it slept. \<^verbatim>\<open>self.timestamps[0]\<close> raises on an
  empty deque, which the length test lets through when the limit is not positive.
\<close>

definition wait_if_needed :: "subtraction \<Rightarrow> time \<Rightarrow> RateLimiter \<Rightarrow> error + time" where
  "wait_if_needed fsub now rl =
     (if int (length (timestamps rl)) < limit rl then Inr 0
      else (case timestamps rl of
              [] \<Rightarrow> Inl IndexError
            | oldest # _ \<Rightarrow>
                (let wait_time = max 0 (fsub (window rl) (fsub now oldest))
                 in if wait_time > 0 then Inr wait_time else Inr 0)))"

section \<open>make\_api\_request (app.py)\<close>

text \<open>
  One caller's view of the world: the clock, the shared limiter, the subtraction of the
  machine it runs on, and the trace of what the caller did (a history variable, not
  program state). A sleep is taken to last exactly as long as asked.
\<close>

datatype event = Throttle time | Send string time | Record time | Sleep time

record world =
  clock :: time
  limiter :: RateLimiter
  subtract :: subtraction
  trace :: "event list"

definition sleep :: "time \<Rightarrow> world \<Rightarrow> world" where
  "sleep d w = w\<lparr>clock := clock w + d, trace := trace w @ [Sleep d]\<rparr>"

definition throttled :: "time \<Rightarrow> world \<Rightarrow> world" where
  "throttled d w = w\<lparr>clock := clock w + d, trace := trace w @ [Throttle d]\<rparr>"

text \<open>\<^verbatim>\<open>requests.get\<close>: the request leaves now, the answer arrives after the latency.\<close>

definition send :: "endpoint \<Rightarrow> string \<Rightarrow> nat \<Rightarrow> world \<Rightarrow> world" where
  "send ep query attempt w =
     w\<lparr>clock := clock w + latency ep query attempt,
       trace := trace w @ [Send query (clock w)]\<rparr>"

definition record_request :: "world \<Rightarrow> world" where
  "record_request w =
     w\<lparr>limiter := add_request (subtract w) (clock w) (limiter w),
       trace := trace w @ [Record (clock w)]\<rparr>"

text \<open>The exponential backoff of both error branches.\<close>

definition backoff :: "nat \<Rightarrow> world \<Rightarrow> world" where
  "backoff attempt w = (if attempt < MAX_RETRIES - 1 then sleep (2 ^ attempt) w else w)"

text \<open>
  The body of \<^verbatim>\<open>for attempt in range(MAX_RETRIES)\<close>, over the attempts still to make.
  The result is \<open>Inr (Some body)\<close> for the returned JSON, \<open>Inr None\<close> for \<^verbatim>\<open>None\<close>, and
  \<open>Inl e\<close> when the limiter raises, which happens outside the \<^verbatim>\<open>try\<close>.
\<close>

fun try_attempts ::
  "endpoint \<Rightarrow> string \<Rightarrow> nat list \<Rightarrow> world \<Rightarrow> (error + body option) \<times> world" where
  "try_attempts ep query [] w = (Inr None, w)"
| "try_attempts ep query (attempt # rest) w =
     (case wait_if_needed (subtract w) (clock w) (limiter w) of
        Inl e \<Rightarrow> (Inl e, w)
      | Inr d \<Rightarrow>
          (let w1 = send ep query attempt (throttled d w) in
           case answer ep query attempt of
             RequestException \<Rightarrow> try_attempts ep query rest (backoff attempt w1)
           | Response status_code json \<Rightarrow>
               (let w2 = record_request w1 in
                if status_code = 200 then (Inr (Some json), w2)
                else if status_code = 429
                  then try_attempts ep query rest (sleep (60 * (of_nat attempt + 1)) w2)
                else try_attempts ep query rest (backoff attempt w2))))"

definition make_api_request ::
  "endpoint \<Rightarrow> string \<Rightarrow> world \<Rightarrow> (error + body option) \<times> world" where
  "make_api_request ep query w = try_attempts ep query [0..<MAX_RETRIES] w"

section \<open>bfs\_explore (app.py)\<close>

text \<open>
  The futures of a batch run \<^verbatim>\<open>make_api_request\<close> on worker threads against the limiter
  \<^verbatim>\<open>RateLimiter(RATE_LIMIT, 60)\<close>. What a future returns depends on the endpoint's
  answers only (lemma \<open>try_attempts_result\<close> below), so it is read off a run from the world
  the limiter starts in. An exception inside the future reaches the
  \<^verbatim>\<open>except Exception\<close> of the result loop, which logs and goes on as for \<^verbatim>\<open>None\<close>.
\<close>

definition fresh_world :: world where
  "fresh_world =
     \<lparr>clock = 0, limiter = \<lparr>limit = RATE_LIMIT, window = 60, timestamps = []\<rparr>,
      subtract = (-), trace = []\<rparr>"

definition future_result :: "endpoint \<Rightarrow> string \<Rightarrow> body option" where
  "future_result ep prefix =
     (case fst (make_api_request ep prefix fresh_world) of Inl _ \<Rightarrow> None | Inr r \<Rightarrow> r)"

text \<open>
  The state of the loop. \<open>issued\<close> and \<open>enqueued\<close> are history variables: the prefixes
  submitted to the executor and the prefixes put on the queue (the seeds included), each
  in order.
\<close>

record bfs_state =
  queue :: "string list"
  all_names :: "string set"
  processed :: "string set"
  request_count :: nat
  issued :: "string list"
  enqueued :: "string list"

definition bfs_init :: bfs_state where
  "bfs_init =
     \<lparr>queue = map (\<lambda>c. [c]) ascii_lowercase, all_names = {}, processed = {},
      request_count = 0, issued = [],
      enqueued = map (\<lambda>c. [c]) ascii_lowercase\<rparr>"

text \<open>
  The loop that fills \<^verbatim>\<open>current_batch\<close>: \<open>n\<close> rounds, each popping the head of the queue
  if there is one and keeping it unless it was processed before. It returns the batch,
  the remaining queue and the processed set.
\<close>

fun take_batch ::
  "nat \<Rightarrow> string list \<Rightarrow> string set \<Rightarrow> string list
     \<Rightarrow> string list \<times> string list \<times> string set" where
  "take_batch 0 q pr batch = (batch, q, pr)"
| "take_batch (Suc n) [] pr batch = take_batch n [] pr batch"
| "take_batch (Suc n) (prefix # q) pr batch =
     (if prefix \<notin> pr then take_batch n q (insert prefix pr) (batch @ [prefix])
      else take_batch n q pr batch)"

definition dequeue_batch :: "bfs_state \<Rightarrow> string list \<times> string list \<times> string set" where
  "dequeue_batch st =
     take_batch (min MAX_WORKERS (length (queue st))) (queue st) (processed st) []"

text \<open>The innermost loop: one deeper prefix per letter, unless already processed.\<close>

definition expand_char :: "string \<Rightarrow> bfs_state \<Rightarrow> char \<Rightarrow> bfs_state" where
  "expand_char prefix st char =
     (let new_prefix = prefix @ [char]
      in if new_prefix \<notin> processed st
         then st\<lparr>queue := queue st @ [new_prefix], enqueued := enqueued st @ [new_prefix]\<rparr>
         else st)"

definition saturated :: "body \<Rightarrow> bool" where
  "saturated response = ((case count response of None \<Rightarrow> 0 | Some c \<Rightarrow> c) = 10)"

text \<open>The body of the loop over the completed futures.\<close>

definition handle_result :: "endpoint \<Rightarrow> bfs_state \<Rightarrow> string \<Rightarrow> bfs_state" where
  "handle_result ep st prefix =
     (case future_result ep prefix of
        None \<Rightarrow> st
      | Some response \<Rightarrow>
          (case results response of
             None \<Rightarrow> st
           | Some names \<Rightarrow>
               (let st1 = st\<lparr>all_names := all_names st \<union> set names\<rparr>
                in if saturated response
                   then foldl (expand_char prefix) st1 ascii_lowercase
                   else st1)))"

text \<open>
  \<^verbatim>\<open>as_completed\<close> yields the futures of the batch in the order in which they finish:
  \<open>finish\<close> gives each prefix's finishing time, ties in submission order. Every order of a
  batch of distinct prefixes arises from some \<open>finish\<close>.
\<close>

definition as_completed :: "(string \<Rightarrow> nat) \<Rightarrow> string list \<Rightarrow> string list" where
  "as_completed finish batch = sort_key finish batch"

text \<open>One pass through the body of \<^verbatim>\<open>while queue\<close>.\<close>

definition bfs_iteration :: "endpoint \<Rightarrow> (string \<Rightarrow> nat) \<Rightarrow> bfs_state \<Rightarrow> bfs_state" where
  "bfs_iteration ep finish st =
     (case dequeue_batch st of
        (current_batch, q, pr) \<Rightarrow>
          (let st1 = st\<lparr>queue := q, processed := pr\<rparr>
           in if current_batch = [] then st1
              else foldl (handle_result ep)
                     (st1\<lparr>request_count := request_count st1 + length current_batch,
                          issued := issued st1 @ current_batch\<rparr>)
                     (as_completed finish current_batch)))"

text \<open>The state after at most \<open>n\<close> passes; the loop stops once the queue is empty.\<close>

fun bfs_loop :: "endpoint \<Rightarrow> (string \<Rightarrow> nat) \<Rightarrow> nat \<Rightarrow> bfs_state \<Rightarrow> bfs_state" where
  "bfs_loop ep finish 0 st = st"
| "bfs_loop ep finish (Suc n) st =
     (if queue st = [] then st else bfs_loop ep finish n (bfs_iteration ep finish st))"

text \<open>\<^verbatim>\<open>bfs_explore\<close> returns once the queue is empty; \<open>None\<close> when \<open>n\<close> passes do not empty it.\<close>

definition bfs_explore :: "endpoint \<Rightarrow> (string \<Rightarrow> nat) \<Rightarrow> nat \<Rightarrow> (string set \<times> nat) option" where
  "bfs_explore ep finish n =
     (let st = bfs_loop ep finish n bfs_init
      in if queue st = [] then Some (all_names st, request_count st) else None)"
section \<open>AutocompleteExplorer (autocomplete\_extractor.py)\<close>

text \<open>
  The versions the callers pass. \<open>jvalue\<close> is what a parsed body can hold under the key
  \<^verbatim>\<open>results\<close>: null, a number, a string or a list of strings. An answer is a status with what
  \<^verbatim>\<open>response.json()\<close> makes of the body: a dictionary with or without the key
  \<^verbatim>\<open>results\<close>, or an exception (also when the value is no dictionary, where \<^verbatim>\<open>data.get\<close>
  raises). \<open>Raised\<close> is an exception inside \<^verbatim>\<open>session.get\<close>, whatever its class.

  The server is given, per version, by its answer to the k-th attempt (from 0) for a
  query and by how long that attempt takes. \<open>write_ok n\<close> tells whether the n-th opening
  of a file for writing (from 0) succeeds.
\<close>

datatype version = V1 | V2 | V3

datatype jvalue = JNull | JNumber int | JText string | JNames "string list"

datatype payload = Json "jvalue option" | Unparseable

datatype aio_reply = Answer nat payload | Raised

record server =
  reply :: "version \<Rightarrow> string \<Rightarrow> nat \<Rightarrow> aio_reply"
  delay :: "version \<Rightarrow> string \<Rightarrow> nat \<Rightarrow> time"
  write_ok :: "nat \<Rightarrow> bool"

text \<open>The exceptions that leave the exploration loops, which catch nothing.\<close>

datatype exception = TypeError | OSError

text \<open>
  The explorer's fields, the clock, the number of files opened for writing, what
  \<^verbatim>\<open>save_progress\<close> wrote last for each version (requests made and names), the exception
  that ended the run, if any, and two history variables: the requests made with their
  starting times, and the pauses taken.
\<close>

record explorer =
  v1_names :: "string set"
  v2_names :: "string set"
  v3_names :: "string set"
  requests_count :: "version \<Rightarrow> nat"
  time_now :: time
  writes :: nat
  saved :: "version \<Rightarrow> (nat \<times> string set) option"
  failure :: "exception option"
  requests :: "(time \<times> version \<times> string) list"
  pauses :: "time list"

definition new_explorer :: explorer where
  "new_explorer =
     \<lparr>v1_names = {}, v2_names = {}, v3_names = {}, requests_count = (\<lambda>v. 0),
      time_now = 0, writes = 0, saved = (\<lambda>v. None), failure = None,
      requests = [], pauses = []\<rparr>"

text \<open>\<^verbatim>\<open>asyncio.sleep\<close>.\<close>

definition pause :: "time \<Rightarrow> explorer \<Rightarrow> explorer" where
  "pause d ex = ex\<lparr>time_now := time_now ex + d, pauses := pauses ex @ [d]\<rparr>"

text \<open>
  \<^verbatim>\<open>make_request\<close>. The counter goes up before the \<^verbatim>\<open>try\<close>. A 429 sleeps 61 seconds and
  awaits \<^verbatim>\<open>make_request\<close> again, inside the \<^verbatim>\<open>try\<close>; nothing in the code bounds the nesting,
  the interpreter's recursion limit does. \<open>depth\<close> is the number of further nested calls
  the interpreter allows below this one: with none left, the nested call is refused with
  a RecursionError, which this call's \<^verbatim>\<open>except Exception\<close> turns into the empty list. A 200
  returns \<^verbatim>\<open>data.get("results", [])\<close>: the value under \<^verbatim>\<open>results\<close>, whatever it is, and
  the empty list only when the key is absent.
\<close>

fun make_request ::
  "server \<Rightarrow> nat \<Rightarrow> version \<Rightarrow> string \<Rightarrow> nat \<Rightarrow> explorer \<Rightarrow> jvalue \<times> explorer" where
  "make_request srv 0 v query k ex =
     (let ex1 = ex\<lparr>requests_count := (requests_count ex)(v := requests_count ex v + 1)\<rparr>;
          ex2 = ex1\<lparr>requests := requests ex1 @ [(time_now ex1, v, query)],
                    time_now := time_now ex1 + delay srv v query k\<rparr>
      in case reply srv v query k of
           Raised \<Rightarrow> (JNames [], ex2)
         | Answer status data \<Rightarrow>
             if status = 429 then (JNames [], pause 61 ex2)
             else if status = 200
               then (case data of
                       Unparseable \<Rightarrow> (JNames [], ex2)
                     | Json None \<Rightarrow> (JNames [], ex2)
                     | Json (Some res) \<Rightarrow> (res, ex2))
             else (JNames [], ex2))"
| "make_request srv (Suc depth) v query k ex =
     (let ex1 = ex\<lparr>requests_count := (requests_count ex)(v := requests_count ex v + 1)\<rparr>;
          ex2 = ex1\<lparr>requests := requests ex1 @ [(time_now ex1, v, query)],
                    time_now := time_now ex1 + delay srv v query k\<rparr>
      in case reply srv v query k of
           Raised \<Rightarrow> (JNames [], ex2)
         | Answer status data \<Rightarrow>
             if status = 429 then make_request srv depth v query (k + 1) (pause 61 ex2)
             else if status = 200
               then (case data of
                       Unparseable \<Rightarrow> (JNames [], ex2)
                     | Json None \<Rightarrow> (JNames [], ex2)
                     | Json (Some res) \<Rightarrow> (res, ex2))
             else (JNames [], ex2))"

text \<open>
  What \<^verbatim>\<open>set.update\<close> and \<^verbatim>\<open>len\<close> take from a value: the elements of a list, the
  characters of a string; null and a number are not iterable.
\<close>

fun iterate :: "jvalue \<Rightarrow> string list option" where
  "iterate (JNames names) = Some names"
| "iterate (JText s) = Some (map (\<lambda>c. [c]) s)"
| "iterate JNull = None"
| "iterate (JNumber n) = None"

definition names_for :: "version \<Rightarrow> explorer \<Rightarrow> string set" where
  "names_for v ex = (case v of V1 \<Rightarrow> v1_names ex | V2 \<Rightarrow> v2_names ex | V3 \<Rightarrow> v3_names ex)"

definition update_names :: "version \<Rightarrow> string list \<Rightarrow> explorer \<Rightarrow> explorer" where
  "update_names v names ex =
     (case v of
        V1 \<Rightarrow> ex\<lparr>v1_names := v1_names ex \<union> set names\<rparr>
      | V2 \<Rightarrow> ex\<lparr>v2_names := v2_names ex \<union> set names\<rparr>
      | V3 \<Rightarrow> ex\<lparr>v3_names := v3_names ex \<union> set names\<rparr>)"

text \<open>\<^verbatim>\<open>save_progress\<close>: opening the file raises when the write is refused.\<close>

definition save_progress :: "server \<Rightarrow> version \<Rightarrow> explorer \<Rightarrow> explorer" where
  "save_progress srv v ex =
     (if write_ok srv (writes ex)
      then ex\<lparr>writes := writes ex + 1,
              saved := (saved ex)(v := Some (requests_count ex v, names_for v ex))\<rparr>
      else ex\<lparr>writes := writes ex + 1, failure := Some OSError\<rparr>)"

text \<open>
  The body shared by every exploration loop: the request, the update of the names, the
  logging of \<^verbatim>\<open>len(results)\<close>, the saving of the progress. No \<^verbatim>\<open>try\<close> surrounds it: an
  exception ends the run, and nothing further is done.
\<close>

definition request_and_update :: "server \<Rightarrow> nat \<Rightarrow> version \<Rightarrow> explorer \<Rightarrow> string \<Rightarrow> explorer" where
  "request_and_update srv depth v ex query =
     (if failure ex \<noteq> None then ex
      else (case make_request srv depth v query 0 ex of
              (res, ex1) \<Rightarrow>
                (case iterate res of
                   None \<Rightarrow> ex1\<lparr>failure := Some TypeError\<rparr>
                 | Some names \<Rightarrow> save_progress srv v (update_names v names ex1))))"



definition explore_v1 :: "server \<Rightarrow> nat \<Rightarrow> explorer \<Rightarrow> explorer" where
  "explore_v1 srv depth ex =
     (let ex1 = foldl (\<lambda>e letter. request_and_update srv depth V1 e [letter]) ex ascii_lowercase
      in foldl (\<lambda>e first.
                  foldl (\<lambda>e second. request_and_update srv depth V1 e [first, second])
                    e ascii_lowercase)
           ex1 ascii_lowercase)"




definition unless_failed :: "(explorer \<Rightarrow> explorer) \<Rightarrow> explorer \<Rightarrow> explorer" where
  "unless_failed step ex = (if failure ex \<noteq> None then ex else step ex)"




section \<open>Notions used to state the properties\<close>

subsection \<open>Attempts and traces of make\_api\_request\<close>

fun succeeded :: "reply \<Rightarrow> bool" where
  "succeeded (Response status_code json) = (status_code = 200)"
| "succeeded RequestException = False"

fun answered :: "reply \<Rightarrow> bool" where
  "answered (Response status_code json) = True"
| "answered RequestException = False"

text \<open>The attempts that are made: up to and including the first that succeeds.\<close>

fun attempts_made :: "endpoint \<Rightarrow> string \<Rightarrow> nat list \<Rightarrow> nat list" where
  "attempts_made ep query [] = []"
| "attempts_made ep query (attempt # rest) =
     (if succeeded (answer ep query attempt) then [attempt]
      else attempt # attempts_made ep query rest)"

fun outcome :: "endpoint \<Rightarrow> string \<Rightarrow> nat list \<Rightarrow> body option" where
  "outcome ep query [] = None"
| "outcome ep query (attempt # rest) =
     (case answer ep query attempt of
        RequestException \<Rightarrow> outcome ep query rest
      | Response status_code json \<Rightarrow>
          if status_code = 200 then Some json else outcome ep query rest)"

fun sends :: "event list \<Rightarrow> nat" where
  "sends [] = 0"
| "sends (Send q t # es) = Suc (sends es)"
| "sends (e # es) = sends es"

fun records :: "event list \<Rightarrow> nat" where
  "records [] = 0"
| "records (Record t # es) = Suc (records es)"
| "records (e # es) = records es"

datatype phase = Idle | Throttled | Sent | Recorded

fun well_ordered :: "phase \<Rightarrow> event list \<Rightarrow> bool" where
  "well_ordered ph [] = (ph \<noteq> Throttled)"
| "well_ordered ph (Throttle d # es) = (ph \<noteq> Throttled \<and> well_ordered Throttled es)"
| "well_ordered ph (Send q t # es) = (ph = Throttled \<and> well_ordered Sent es)"
| "well_ordered ph (Record t # es) = (ph = Sent \<and> well_ordered Recorded es)"
| "well_ordered ph (Sleep s # es) = ((ph = Sent \<or> ph = Recorded) \<and> well_ordered Idle es)"

fun rate_limited :: "reply \<Rightarrow> bool" where
  "rate_limited (Response status_code json) = (status_code = 429)"
| "rate_limited RequestException = False"

definition answered_attempts :: "endpoint \<Rightarrow> string \<Rightarrow> nat list \<Rightarrow> nat list" where
  "answered_attempts ep query as =
     filter (\<lambda>a. answered (answer ep query a)) (attempts_made ep query as)"

subsection \<open>The invariant of the exploration loop\<close>

text \<open>
  A prefix expands when its future returned a body that holds \<^verbatim>\<open>results\<close> and whose
  count is 10. \<open>inv_mid\<close> is the invariant inside the result loop, \<open>X\<close> being the prefixes
  whose results were handled; between two passes \<open>X\<close> is everything issued.
\<close>

definition expands :: "endpoint \<Rightarrow> string \<Rightarrow> bool" where
  "expands ep prefix =
     (case future_result ep prefix of
        None \<Rightarrow> False
      | Some response \<Rightarrow> results response \<noteq> None \<and> saturated response)"

definition extensions :: "string \<Rightarrow> string list" where
  "extensions prefix = map (\<lambda>c. prefix @ [c]) ascii_lowercase"

definition inv_mid :: "endpoint \<Rightarrow> string set \<Rightarrow> bfs_state \<Rightarrow> bool" where
  "inv_mid ep X st \<longleftrightarrow>
     enqueued st = issued st @ queue st \<and> distinct (enqueued st) \<and>
     processed st = set (issued st) \<and> X \<subseteq> set (issued st) \<and>
     request_count st = length (issued st) \<and>
     (\<forall>e \<in> set (enqueued st). e \<noteq> [] \<and>
        (length e = 1 \<or> (butlast e \<in> X \<and> expands ep (butlast e)
            \<and> last e \<in> set ascii_lowercase))) \<and>
     (\<forall>p \<in> X. expands ep p \<longrightarrow> set (extensions p) \<subseteq> set (enqueued st))"

definition inv :: "endpoint \<Rightarrow> bfs_state \<Rightarrow> bool" where
  "inv ep st = inv_mid ep (set (issued st)) st"

subsection \<open>Counting\<close>

text \<open>What a call of make\_api\_request added to the trace.\<close>

definition new_events :: "world \<Rightarrow> world \<Rightarrow> event list" where
  "new_events w w' = drop (length (trace w)) (trace w')"

text \<open>The requests sent for a list of prefixes, each fetched once.\<close>

definition total_attempts :: "endpoint \<Rightarrow> string list \<Rightarrow> nat" where
  "total_attempts ep prefixes =
     sum_list (map (\<lambda>prefix. length (attempts_made ep prefix [0..<MAX_RETRIES])) prefixes)"

subsection \<open>Answers to the asynchronous client\<close>

text \<open>
  An answer that \<^verbatim>\<open>make_request\<close> turns into the empty list: an exception of the request,
  a status other than 200 and 429, or a 200 whose body does not parse.
\<close>

fun failed_reply :: "aio_reply \<Rightarrow> bool" where
  "failed_reply Raised = True"
| "failed_reply (Answer status data) =
     (status \<noteq> 429 \<and> (status \<noteq> 200 \<or> data = Unparseable))"

fun told_to_wait :: "aio_reply \<Rightarrow> bool" where
  "told_to_wait Raised = False"
| "told_to_wait (Answer status data) = (status = 429)"

text \<open>What \<^verbatim>\<open>make_request\<close> returns on an answer other than 429.\<close>

fun returned :: "aio_reply \<Rightarrow> jvalue" where
  "returned Raised = JNames []"
| "returned (Answer status data) =
     (if status = 200
      then (case data of
              Unparseable \<Rightarrow> JNames []
            | Json None \<Rightarrow> JNames []
            | Json (Some res) \<Rightarrow> res)
      else JNames [])"


text \<open>The explorer after the counting and the sending of one attempt.\<close>

definition attempted :: "server \<Rightarrow> version \<Rightarrow> string \<Rightarrow> nat \<Rightarrow> explorer \<Rightarrow> explorer" where
  "attempted srv v query k ex =
     ex\<lparr>requests_count := (requests_count ex)(v := requests_count ex v + 1),
        requests := requests ex @ [(time_now ex, v, query)],
        time_now := time_now ex + delay srv v query k\<rparr>"

definition queries_sent :: "explorer \<Rightarrow> string list" where
  "queries_sent ex = map (\<lambda>(t, v, query). query) (requests ex)"






text \<open>The names the result loop takes from the future of a prefix.\<close>

definition names_of :: "endpoint \<Rightarrow> string \<Rightarrow> string set" where
  "names_of ep prefix =
     (case future_result ep prefix of
        None \<Rightarrow> {}
      | Some response \<Rightarrow> (case results response of None \<Rightarrow> {} | Some names \<Rightarrow> set names))"

text \<open>
  What handling the future of a prefix puts on the queue, and what handling the futures
  of a list of prefixes puts on it, in the order of handling.
\<close>

definition expansion_of :: "endpoint \<Rightarrow> string \<Rightarrow> string list" where
  "expansion_of ep prefix = (if expands ep prefix then extensions prefix else [])"

definition new_prefixes :: "endpoint \<Rightarrow> string list \<Rightarrow> string list" where
  "new_prefixes ep prefixes = concat (map (expansion_of ep) prefixes)"

text \<open>
  The endpoint that differs in answering one prefix, on every attempt, with a 200 whose
  body holds neither results nor count.
\<close>

definition answered_empty :: "endpoint \<Rightarrow> string \<Rightarrow> endpoint" where
  "answered_empty ep prefix =
     ep\<lparr>answer := (answer ep)(prefix := (\<lambda>attempt. Response 200 \<lparr>results = None, count = None\<rparr>))\<rparr>"

section \<open>Concrete endpoints\<close>

text \<open>Every future of a batch finishes at the same time: completion in submission order.\<close>

definition submission_order :: "string \<Rightarrow> nat" where
  "submission_order prefix = 0"

definition ten_names :: "string list" where
  "ten_names = [''aa'', ''ab'', ''ac'', ''ad'', ''ae'', ''af'', ''ag'', ''ah'', ''ai'', ''aj'']"

definition full_page :: body where
  "full_page = \<lparr>results = Some ten_names, count = Some 10\<rparr>"

definition short_page :: body where
  "short_page = \<lparr>results = Some [''bob'', ''bill'', ''ben''], count = Some 3\<rparr>"


text \<open>
  The prefix a is answered 500 on every attempt, the prefix b saturates the page, every
  other prefix returns three names.
\<close>

definition failing_endpoint :: endpoint where
  "failing_endpoint =
     \<lparr>answer = (\<lambda>query attempt.
                  if query = ''a'' then Response 500 \<lparr>results = None, count = None\<rparr>
                  else if query = ''b'' then Response 200 full_page
                  else Response 200 short_page),
      latency = (\<lambda>query attempt. 1 / 10)\<rparr>"


text \<open>The prefix e is answered 429 twice and then 200; every other prefix 200 at once.\<close>

definition throttling_endpoint :: endpoint where
  "throttling_endpoint =
     \<lparr>answer = (\<lambda>query attempt.
                  if query = ''e'' \<and> attempt < 2 then Response 429 \<lparr>results = None, count = None\<rparr>
                  else Response 200 short_page),
      latency = (\<lambda>query attempt. 1 / 10)\<rparr>"


text \<open>A server that answers 500 to everything.\<close>

definition broken_server :: server where
  "broken_server =
     \<lparr>reply = (\<lambda>v query k. Answer 500 Unparseable),
      delay = (\<lambda>v query k. 1 / 20), write_ok = (\<lambda>n. True)\<rparr>"

text \<open>A server that answers 429 to the first six attempts for a query, then one name.\<close>

definition stubborn_server :: server where
  "stubborn_server =
     \<lparr>reply = (\<lambda>v query k. if k < 6 then Answer 429 Unparseable
                             else Answer 200 (Json (Some (JNames [''eve''])))),
      delay = (\<lambda>v query k. 1 / 20), write_ok = (\<lambda>n. True)\<rparr>"

text \<open>A server that answers 429 to the first two attempts for a query, then one name.\<close>

definition busy_server :: server where
  "busy_server =
     \<lparr>reply = (\<lambda>v query k. if k < 2 then Answer 429 Unparseable
                             else Answer 200 (Json (Some (JNames [''eve''])))),
      delay = (\<lambda>v query k. 1 / 20), write_ok = (\<lambda>n. True)\<rparr>"

text \<open>A server that answers every query with a 200 whose body holds null under results.\<close>

definition null_server :: server where
  "null_server =
     \<lparr>reply = (\<lambda>v query k. Answer 200 (Json (Some JNull))),
      delay = (\<lambda>v query k. 1 / 20), write_ok = (\<lambda>n. True)\<rparr>"


text \<open>A server that answers 429 to every attempt.\<close>

definition refusing_server :: server where
  "refusing_server =
     \<lparr>reply = (\<lambda>v query k. Answer 429 Unparseable),
      delay = (\<lambda>v query k. 1 / 20), write_ok = (\<lambda>n. True)\<rparr>"


section \<open>What one call of make\_api\_request does\<close>

lemma well_ordered_Idle:
  "well_ordered Idle es \<Longrightarrow> well_ordered Sent es \<and> well_ordered Recorded es"
  by (cases es rule: sends.cases) simp_all

lemma sends_append: "sends (xs @ ys) = sends xs + sends ys"
  by (induction xs rule: sends.induct) simp_all

lemma records_append: "records (xs @ ys) = records xs + records ys"
  by (induction xs rule: records.induct) simp_all

lemma wait_if_needed_ok:
  "0 < limit rl \<Longrightarrow> \<exists>d. wait_if_needed fsub now rl = Inr d \<and> 0 \<le> d"
  by (cases "timestamps rl") (auto simp: wait_if_needed_def Let_def)

lemma limit_steps:
  "limit (limiter (sleep d w)) = limit (limiter w)"
  "limit (limiter (throttled d w)) = limit (limiter w)"
  "limit (limiter (send ep q a w)) = limit (limiter w)"
  "limit (limiter (record_request w)) = limit (limiter w)"
  "limit (limiter (backoff a w)) = limit (limiter w)"
  by (simp_all add: sleep_def throttled_def send_def record_request_def backoff_def add_request_def)

lemma try_attempts_result:
  "0 < limit (limiter w) \<Longrightarrow> fst (try_attempts ep query as w) = Inr (outcome ep query as)"
proof (induction as arbitrary: w)
  case Nil
  then show ?case by simp
next
  case (Cons a as)
  from Cons.prems obtain d where d: "wait_if_needed (subtract w) (clock w) (limiter w) = Inr d"
    using wait_if_needed_ok by blast
  show ?case
  proof (cases "answer ep query a")
    case RequestException
    then show ?thesis using d Cons.prems by (simp add: Cons.IH limit_steps)
  next
    case (Response s j)
    then show ?thesis using d Cons.prems by (simp add: Cons.IH limit_steps Let_def)
  qed
qed

lemma trace_steps:
  "trace (sleep d w) = trace w @ [Sleep d]"
  "trace (throttled d w) = trace w @ [Throttle d]"
  "trace (send ep q a w) = trace w @ [Send q (clock w)]"
  "trace (record_request w) = trace w @ [Record (clock w)]"
  "trace (backoff a w) = trace w @ (if a < MAX_RETRIES - 1 then [Sleep (2 ^ a)] else [])"
  by (simp_all add: sleep_def throttled_def send_def record_request_def backoff_def)

lemma try_attempts_trace:
  "0 < limit (limiter w) \<Longrightarrow>
   \<exists>es. trace (snd (try_attempts ep query as w)) = trace w @ es \<and>
        well_ordered Idle es \<and>
        sends es = length (attempts_made ep query as) \<and>
        records es = length (answered_attempts ep query as) \<and>
        (\<forall>a \<in> set (attempts_made ep query as).
           rate_limited (answer ep query a) \<longrightarrow> Sleep (60 * (of_nat a + 1)) \<in> set es) \<and>
        (\<forall>t. Throttle t \<in> set es \<longrightarrow> 0 \<le> t)"
proof (induction as arbitrary: w)
  case Nil
  then show ?case by (simp add: answered_attempts_def)
next
  case (Cons a as)
  from Cons.prems obtain d where d: "wait_if_needed (subtract w) (clock w) (limiter w) = Inr d"
    and dpos: "0 \<le> d"
    using wait_if_needed_ok by blast
  define w1 where "w1 = send ep query a (throttled d w)"
  have t1: "trace w1 = trace w @ [Throttle d, Send query (clock (throttled d w))]"
    by (simp add: w1_def trace_steps)
  have l1: "0 < limit (limiter w1)" using Cons.prems by (simp add: w1_def limit_steps)
  show ?case
  proof (cases "answer ep query a")
    case RequestException
    define w2 where "w2 = backoff a w1"
    have step: "try_attempts ep query (a # as) w = try_attempts ep query as w2"
      using d RequestException by (simp add: w1_def w2_def)
    have "0 < limit (limiter w2)" using l1 by (simp add: w2_def limit_steps)
    from Cons.IH[OF this] obtain es where es:
      "trace (snd (try_attempts ep query as w2)) = trace w2 @ es" "well_ordered Idle es"
      "sends es = length (attempts_made ep query as)"
      "records es = length (answered_attempts ep query as)"
      "\<forall>a \<in> set (attempts_made ep query as).
           rate_limited (answer ep query a) \<longrightarrow> Sleep (60 * (of_nat a + 1)) \<in> set es"
      "\<forall>t. Throttle t \<in> set es \<longrightarrow> 0 \<le> t"
      by blast
    define blk where "blk = [Throttle d, Send query (clock (throttled d w))]
        @ (if a < MAX_RETRIES - 1 then [Sleep (2 ^ a)] else [])"
    have t2: "trace w2 = trace w @ blk" by (simp add: w2_def trace_steps t1 blk_def)
    have wo: "well_ordered Idle (blk @ es)"
      using es(2) well_ordered_Idle[OF es(2)] by (simp add: blk_def)
    have "trace (snd (try_attempts ep query (a # as) w)) = trace w @ (blk @ es)"
      using step es(1) t2 by simp
    moreover have "sends (blk @ es) = length (attempts_made ep query (a # as))"
      using es(3) RequestException by (simp add: sends_append blk_def)
    moreover have "records (blk @ es) = length (answered_attempts ep query (a # as))"
      using es(4) RequestException by (simp add: records_append blk_def answered_attempts_def)
    moreover have "\<forall>b \<in> set (attempts_made ep query (a # as)).
           rate_limited (answer ep query b) \<longrightarrow> Sleep (60 * (of_nat b + 1)) \<in> set (blk @ es)"
      using es(5) RequestException by auto
    moreover have "\<forall>t. Throttle t \<in> set (blk @ es) \<longrightarrow> 0 \<le> t"
      using es(6) dpos by (auto simp: blk_def)
    ultimately show ?thesis using wo by blast
  next
    case (Response s j)
    define w2 where "w2 = record_request w1"
    have t2: "trace w2 = trace w @ [Throttle d, Send query (clock (throttled d w)), Record (clock w1)]"
      by (simp add: w2_def trace_steps t1)
    have l2: "0 < limit (limiter w2)" using l1 by (simp add: w2_def limit_steps)
    show ?thesis
    proof (cases "s = 200")
      case True
      have "try_attempts ep query (a # as) w = (Inr (Some j), w2)"
        using d Response True by (simp add: w1_def w2_def)
      then have "trace (snd (try_attempts ep query (a # as) w)) =
          trace w @ [Throttle d, Send query (clock (throttled d w)), Record (clock w1)]"
        using t2 by simp
      then show ?thesis using Response True dpos
        by (intro exI[of _ "[Throttle d, Send query (clock (throttled d w)), Record (clock w1)]"])
           (simp add: answered_attempts_def)
    next
      case False
      define w3 where "w3 = (if s = 429 then sleep (60 * (of_nat a + 1)) w2 else backoff a w2)"
      have step: "try_attempts ep query (a # as) w = try_attempts ep query as w3"
        using d Response False by (simp add: w1_def w2_def w3_def)
      have "0 < limit (limiter w3)" using l2 by (simp add: w3_def limit_steps)
      from Cons.IH[OF this] obtain es where es:
        "trace (snd (try_attempts ep query as w3)) = trace w3 @ es" "well_ordered Idle es"
        "sends es = length (attempts_made ep query as)"
        "records es = length (answered_attempts ep query as)"
        "\<forall>a \<in> set (attempts_made ep query as).
             rate_limited (answer ep query a) \<longrightarrow> Sleep (60 * (of_nat a + 1)) \<in> set es"
        "\<forall>t. Throttle t \<in> set es \<longrightarrow> 0 \<le> t"
        by blast
      define blk where "blk = [Throttle d, Send query (clock (throttled d w)), Record (clock w1)]
          @ (if s = 429 then [Sleep (60 * (of_nat a + 1))]
             else if a < MAX_RETRIES - 1 then [Sleep (2 ^ a)] else [])"
      have t3: "trace w3 = trace w @ blk" by (simp add: w3_def trace_steps t2 blk_def)
      have wo: "well_ordered Idle (blk @ es)"
        using es(2) well_ordered_Idle[OF es(2)] by (simp add: blk_def)
      have "trace (snd (try_attempts ep query (a # as) w)) = trace w @ (blk @ es)"
        using step es(1) t3 by simp
      moreover have "sends (blk @ es) = length (attempts_made ep query (a # as))"
        using es(3) Response False by (simp add: sends_append blk_def)
      moreover have "records (blk @ es) = length (answered_attempts ep query (a # as))"
        using es(4) Response False by (simp add: records_append blk_def answered_attempts_def)
      moreover have "\<forall>b \<in> set (attempts_made ep query (a # as)).
             rate_limited (answer ep query b) \<longrightarrow> Sleep (60 * (of_nat b + 1)) \<in> set (blk @ es)"
        using es(5) Response False by (auto simp: blk_def)
      moreover have "\<forall>t. Throttle t \<in> set (blk @ es) \<longrightarrow> 0 \<le> t"
        using es(6) dpos by (auto simp: blk_def)
      ultimately show ?thesis using wo by blast
    qed
  qed
qed

lemma attempts_made_le: "length (attempts_made ep query as) \<le> length as"
  by (induction as) simp_all

lemma outcome_None:
  "\<forall>a \<in> set as. \<not> succeeded (answer ep query a) \<Longrightarrow>
   outcome ep query as = None \<and> attempts_made ep query as = as"
proof (induction as)
  case Nil
  then show ?case by simp
next
  case (Cons a as)
  then show ?case by (cases "answer ep query a") simp_all
qed

section \<open>The invariant holds throughout the exploration\<close>

lemma distinct_ascii_lowercase: "distinct ascii_lowercase"
  by (simp add: ascii_lowercase_def)

lemma take_batch_fresh:
  "distinct q \<Longrightarrow> set q \<inter> pr = {} \<Longrightarrow> n \<le> length q \<Longrightarrow>
   take_batch n q pr batch = (batch @ take n q, drop n q, pr \<union> set (take n q))"
proof (induction n q pr batch rule: take_batch.induct)
  case (1 q pr batch)
  then show ?case by simp
next
  case (2 n pr batch)
  then show ?case by simp
next
  case (3 n prefix q pr batch)
  then show ?case by auto
qed

lemma foldl_expand_char:
  "\<forall>c \<in> set cs. prefix @ [c] \<notin> processed st \<Longrightarrow>
   foldl (expand_char prefix) st cs =
     st\<lparr>queue := queue st @ map (\<lambda>c. prefix @ [c]) cs,
        enqueued := enqueued st @ map (\<lambda>c. prefix @ [c]) cs\<rparr>"
proof (induction cs arbitrary: st)
  case Nil
  then show ?case by simp
next
  case (Cons c cs)
  then show ?case by (simp add: expand_char_def Let_def)
qed

lemma foldl_issued: "issued (foldl (expand_char prefix) st cs) = issued st"
  by (induction cs arbitrary: st) (simp_all add: expand_char_def Let_def)

lemma handle_result_expands:
  "expands ep prefix \<Longrightarrow> handle_result ep st prefix =
     foldl (expand_char prefix)
       (st\<lparr>all_names := all_names st \<union> set (the (results (the (future_result ep prefix))))\<rparr>)
       ascii_lowercase"
  by (auto simp: handle_result_def expands_def Let_def split: option.splits)

lemma handle_result_not_expands:
  "\<not> expands ep prefix \<Longrightarrow> \<exists>A. handle_result ep st prefix = st\<lparr>all_names := A\<rparr>"
proof (cases "future_result ep prefix")
  case None
  then have "handle_result ep st prefix = st\<lparr>all_names := all_names st\<rparr>"
    by (simp add: handle_result_def)
  then show ?thesis ..
next
  case (Some response)
  assume ne: "\<not> expands ep prefix"
  show ?thesis
  proof (cases "results response")
    case None
    with Some have "handle_result ep st prefix = st\<lparr>all_names := all_names st\<rparr>"
      by (simp add: handle_result_def)
    then show ?thesis ..
  next
    case (Some names)
    with \<open>future_result ep prefix = Some response\<close> ne
    have "handle_result ep st prefix = st\<lparr>all_names := all_names st \<union> set names\<rparr>"
      by (simp add: handle_result_def expands_def)
    then show ?thesis ..
  qed
qed

lemma inv_mid_names:
  "inv_mid ep X (st\<lparr>all_names := A\<rparr>) = inv_mid ep X st"
  by (simp add: inv_mid_def)

lemma inv_mid_handle:
  assumes "inv_mid ep X st" and "p \<in> set (issued st)" and "p \<notin> X"
  shows "inv_mid ep (insert p X) (handle_result ep st p) \<and>
         issued (handle_result ep st p) = issued st"
proof (cases "expands ep p")
  case False
  then obtain A where eq: "handle_result ep st p = st\<lparr>all_names := A\<rparr>"
    using handle_result_not_expands by blast
  have "inv_mid ep (insert p X) st"
    using assms False unfolding inv_mid_def by (auto 4 4)
  then show ?thesis
    unfolding eq by (simp add: inv_mid_names)
next
  case True
  define st1 where "st1 = st\<lparr>all_names := all_names st \<union> set (the (results (the (future_result ep p))))\<rparr>"
  have i1: "inv_mid ep X st1" using assms(1) by (simp add: st1_def inv_mid_names)
  have iss: "issued st1 = issued st" by (simp add: st1_def)
  have nonempty: "p \<noteq> []" using i1 assms(2) iss unfolding inv_mid_def by auto
  have fresh: "\<forall>c. p @ [c] \<notin> set (enqueued st1)"
  proof
    fix c
    show "p @ [c] \<notin> set (enqueued st1)"
    proof
      assume "p @ [c] \<in> set (enqueued st1)"
      with i1 have "length (p @ [c]) = 1 \<or> butlast (p @ [c]) \<in> X"
        unfolding inv_mid_def by blast
      with nonempty assms(3) show False by simp
    qed
  qed
  have proc: "\<forall>c \<in> set ascii_lowercase. p @ [c] \<notin> processed st1"
    using fresh i1 unfolding inv_mid_def by auto
  have eq: "handle_result ep st p =
      st1\<lparr>queue := queue st1 @ extensions p, enqueued := enqueued st1 @ extensions p\<rparr>"
    using handle_result_expands[OF True, of st] foldl_expand_char[OF proc]
    by (simp add: st1_def extensions_def)
  have dext: "distinct (extensions p)"
    by (simp add: extensions_def distinct_map distinct_ascii_lowercase inj_on_def)
  have disj: "set (enqueued st1) \<inter> set (extensions p) = {}"
    using fresh by (auto simp: extensions_def)
  define st2 where "st2 = st1\<lparr>queue := queue st1 @ extensions p, enqueued := enqueued st1 @ extensions p\<rparr>"
  have f: "enqueued st2 = enqueued st1 @ extensions p" "queue st2 = queue st1 @ extensions p"
    "issued st2 = issued st" "processed st2 = processed st1" "request_count st2 = request_count st1"
    by (simp_all add: st2_def iss)
  have c1: "enqueued st2 = issued st2 @ queue st2" "processed st2 = set (issued st2)"
    "request_count st2 = length (issued st2)" "insert p X \<subseteq> set (issued st2)"
    using i1 iss assms(2) unfolding inv_mid_def f by simp_all
  have "distinct (enqueued st1)" using i1 unfolding inv_mid_def by blast
  then have c2: "distinct (enqueued st2)"
    using dext disj unfolding f by simp
  have c3: "\<forall>e \<in> set (enqueued st2). e \<noteq> [] \<and>
        (length e = 1 \<or> (butlast e \<in> insert p X \<and> expands ep (butlast e)
            \<and> last e \<in> set ascii_lowercase))"
  proof
    fix e assume "e \<in> set (enqueued st2)"
    then consider "e \<in> set (enqueued st1)" | "e \<in> set (extensions p)"
      unfolding f by auto
    then show "e \<noteq> [] \<and>
        (length e = 1 \<or> (butlast e \<in> insert p X \<and> expands ep (butlast e)
            \<and> last e \<in> set ascii_lowercase))"
    proof cases
      case 1
      with i1 show ?thesis unfolding inv_mid_def by blast
    next
      case 2
      with True show ?thesis by (auto simp: extensions_def)
    qed
  qed
  have c4: "\<forall>q \<in> insert p X. expands ep q \<longrightarrow> set (extensions q) \<subseteq> set (enqueued st2)"
  proof (intro ballI impI)
    fix q assume "q \<in> insert p X" "expands ep q"
    then consider "q = p" | "q \<in> X" by blast
    then show "set (extensions q) \<subseteq> set (enqueued st2)"
    proof cases
      case 1
      then show ?thesis unfolding f by simp
    next
      case 2
      with i1 \<open>expands ep q\<close> have "set (extensions q) \<subseteq> set (enqueued st1)"
        unfolding inv_mid_def by blast
      then show ?thesis unfolding f by auto
    qed
  qed
  have "inv_mid ep (insert p X) (handle_result ep st p)"
    unfolding eq st2_def[symmetric] unfolding inv_mid_def
    using c1 c2 c3 c4 by blast
  moreover have "issued (handle_result ep st p) = issued st"
    unfolding eq by (simp add: iss)
  ultimately show ?thesis by simp
qed

lemma inv_mid_foldl:
  "distinct ps \<Longrightarrow> set ps \<subseteq> set (issued st) \<Longrightarrow> set ps \<inter> X = {} \<Longrightarrow> inv_mid ep X st \<Longrightarrow>
   inv_mid ep (X \<union> set ps) (foldl (handle_result ep) st ps) \<and>
   issued (foldl (handle_result ep) st ps) = issued st"
proof (induction ps arbitrary: X st)
  case Nil
  then show ?case by simp
next
  case (Cons p ps)
  from Cons.prems have h: "inv_mid ep (insert p X) (handle_result ep st p)"
    "issued (handle_result ep st p) = issued st"
    using inv_mid_handle[of ep X st p] by auto
  have "inv_mid ep (insert p X \<union> set ps) (foldl (handle_result ep) (handle_result ep st p) ps) \<and>
        issued (foldl (handle_result ep) (handle_result ep st p) ps) = issued (handle_result ep st p)"
    using Cons.prems h by (intro Cons.IH) auto
  then show ?case using h by simp
qed

lemma inv_init: "inv ep bfs_init"
  by (auto simp: inv_def inv_mid_def bfs_init_def distinct_map distinct_ascii_lowercase inj_on_def)

lemma dequeue_batch_inv:
  assumes "inv ep st"
  shows "dequeue_batch st =
           (take MAX_WORKERS (queue st), drop MAX_WORKERS (queue st),
            processed st \<union> set (take MAX_WORKERS (queue st)))"
proof -
  from assms have d: "distinct (issued st @ queue st)" and p: "processed st = set (issued st)"
    unfolding inv_def inv_mid_def by auto
  have "take_batch (min MAX_WORKERS (length (queue st))) (queue st) (processed st) [] =
          ([] @ take (min MAX_WORKERS (length (queue st))) (queue st),
           drop (min MAX_WORKERS (length (queue st))) (queue st),
           processed st \<union> set (take (min MAX_WORKERS (length (queue st))) (queue st)))"
    using d p by (intro take_batch_fresh) auto
  moreover have "take (min MAX_WORKERS (length (queue st))) (queue st) = take MAX_WORKERS (queue st)"
    by (simp add: min_def)
  moreover have "drop (min MAX_WORKERS (length (queue st))) (queue st) = drop MAX_WORKERS (queue st)"
    by (simp add: min_def)
  ultimately show ?thesis by (simp add: dequeue_batch_def)
qed

lemma inv_iteration:
  assumes "inv ep st"
  shows "inv ep (bfs_iteration ep finish st)"
proof -
  define b where "b = take MAX_WORKERS (queue st)"
  define st1 where "st1 = st\<lparr>queue := drop MAX_WORKERS (queue st), processed := processed st \<union> set b\<rparr>"
  define st2 where "st2 = st1\<lparr>request_count := request_count st1 + length b, issued := issued st1 @ b\<rparr>"
  have it: "bfs_iteration ep finish st =
      (if b = [] then st1 else foldl (handle_result ep) st2 (as_completed finish b))"
    by (simp add: bfs_iteration_def dequeue_batch_inv[OF assms] b_def st1_def st2_def)
  from assms have i: "inv_mid ep (set (issued st)) st" by (simp add: inv_def)
  have q: "queue st = b @ drop MAX_WORKERS (queue st)" by (simp add: b_def)
  show ?thesis
  proof (cases "b = []")
    case True
    then have "st1 = st" using q by (simp add: st1_def)
    with it True assms show ?thesis by simp
  next
    case False
    have f: "enqueued st2 = enqueued st" "issued st2 = issued st @ b"
      "queue st2 = drop MAX_WORKERS (queue st)" "processed st2 = processed st \<union> set b"
      "request_count st2 = request_count st + length b"
      by (simp_all add: st2_def st1_def)
    have e: "enqueued st = issued st @ b @ drop MAX_WORKERS (queue st)"
      using i q unfolding inv_mid_def by metis
    have dist: "distinct (enqueued st)" using i unfolding inv_mid_def by blast
    have i2: "processed st = set (issued st)" and i3: "request_count st = length (issued st)"
      and i4: "\<forall>e \<in> set (enqueued st). e \<noteq> [] \<and>
        (length e = 1 \<or> (butlast e \<in> set (issued st) \<and> expands ep (butlast e)
            \<and> last e \<in> set ascii_lowercase))"
      and i5: "\<forall>p \<in> set (issued st). expands ep p \<longrightarrow> set (extensions p) \<subseteq> set (enqueued st)"
      using i unfolding inv_mid_def by blast+
    have m: "inv_mid ep (set (issued st)) st2"
      unfolding inv_mid_def f
    proof (intro conjI)
      show "enqueued st = (issued st @ b) @ drop MAX_WORKERS (queue st)" using e by simp
      show "distinct (enqueued st)" by (rule dist)
      show "processed st \<union> set b = set (issued st @ b)" using i2 by simp
      show "set (issued st) \<subseteq> set (issued st @ b)" by simp
      show "request_count st + length b = length (issued st @ b)" using i3 by simp
      show "\<forall>e \<in> set (enqueued st). e \<noteq> [] \<and>
        (length e = 1 \<or> (butlast e \<in> set (issued st) \<and> expands ep (butlast e)
            \<and> last e \<in> set ascii_lowercase))" by (rule i4)
      show "\<forall>p \<in> set (issued st). expands ep p \<longrightarrow> set (extensions p) \<subseteq> set (enqueued st)"
        by (rule i5)
    qed
    have db: "distinct b" "set b \<inter> set (issued st) = {}"
      using dist unfolding e by auto
    have "inv_mid ep (set (issued st) \<union> set (as_completed finish b))
            (foldl (handle_result ep) st2 (as_completed finish b)) \<and>
          issued (foldl (handle_result ep) st2 (as_completed finish b)) = issued st2"
      using db m by (intro inv_mid_foldl) (auto simp: as_completed_def st2_def st1_def)
    then show ?thesis
      using False it by (simp add: inv_def as_completed_def st2_def st1_def)
  qed
qed

lemma issued_iteration:
  assumes "inv ep st"
  shows "issued (bfs_iteration ep finish st) = issued st @ take MAX_WORKERS (queue st)"
proof -
  define b where "b = take MAX_WORKERS (queue st)"
  define st1 where "st1 = st\<lparr>queue := drop MAX_WORKERS (queue st), processed := processed st \<union> set b\<rparr>"
  define st2 where "st2 = st1\<lparr>request_count := request_count st1 + length b, issued := issued st1 @ b\<rparr>"
  have it: "bfs_iteration ep finish st =
      (if b = [] then st1 else foldl (handle_result ep) st2 (as_completed finish b))"
    by (simp add: bfs_iteration_def dequeue_batch_inv[OF assms] b_def st1_def st2_def)
  have "issued (foldl (handle_result ep) s ps) = issued s" for s ps
  proof (induction ps arbitrary: s)
    case Nil
    then show ?case by simp
  next
    case (Cons q qs)
    have "issued (handle_result ep s q) = issued s"
      by (cases "expands ep q")
        (use handle_result_not_expands[of ep q s] in
          \<open>auto simp: handle_result_expands foldl_issued\<close>)
    with Cons.IH show ?case by simp
  qed
  with it show ?thesis by (simp add: st1_def st2_def b_def)
qed

lemma inv_loop: "inv ep st \<Longrightarrow> inv ep (bfs_loop ep finish n st)"
  by (induction n arbitrary: st) (simp_all add: inv_iteration)

lemma count_list_distinct: "distinct xs \<Longrightarrow> x \<in> set xs \<Longrightarrow> count_list xs x = 1"
  by (induction xs) (auto simp: count_list_0_iff)

section \<open>One fetch, seen from the exploration loop\<close>


lemma make_api_request_trace:
  assumes "0 < limit (limiter w)"
  shows "trace (snd (make_api_request ep query w)) =
           trace w @ new_events w (snd (make_api_request ep query w)) \<and>
         well_ordered Idle (new_events w (snd (make_api_request ep query w))) \<and>
         sends (new_events w (snd (make_api_request ep query w))) =
           length (attempts_made ep query [0..<MAX_RETRIES]) \<and>
         records (new_events w (snd (make_api_request ep query w))) =
           length (answered_attempts ep query [0..<MAX_RETRIES]) \<and>
         (\<forall>a \<in> set (attempts_made ep query [0..<MAX_RETRIES]).
            rate_limited (answer ep query a) \<longrightarrow>
            Sleep (60 * (of_nat a + 1)) \<in> set (new_events w (snd (make_api_request ep query w)))) \<and>
         (\<forall>t. Throttle t \<in> set (new_events w (snd (make_api_request ep query w))) \<longrightarrow> 0 \<le> t)"
proof -
  from try_attempts_trace[OF assms, of ep query "[0..<MAX_RETRIES]"]
  obtain es where es: "trace (snd (make_api_request ep query w)) = trace w @ es"
    and rest: "well_ordered Idle es"
      "sends es = length (attempts_made ep query [0..<MAX_RETRIES])"
      "records es = length (answered_attempts ep query [0..<MAX_RETRIES])"
      "\<forall>a \<in> set (attempts_made ep query [0..<MAX_RETRIES]).
           rate_limited (answer ep query a) \<longrightarrow> Sleep (60 * (of_nat a + 1)) \<in> set es"
      "\<forall>t. Throttle t \<in> set es \<longrightarrow> 0 \<le> t"
    unfolding make_api_request_def by blast
  have "new_events w (snd (make_api_request ep query w)) = es"
    by (simp add: new_events_def es)
  with es rest show ?thesis by simp
qed

lemma future_result_outcome: "future_result ep prefix = outcome ep prefix [0..<MAX_RETRIES]"
proof -
  have "0 < limit (limiter fresh_world)" by (simp add: fresh_world_def RATE_LIMIT_def)
  from try_attempts_result[OF this] show ?thesis
    by (simp add: future_result_def make_api_request_def)
qed

lemma handle_result_None: "future_result ep prefix = None \<Longrightarrow> handle_result ep st prefix = st"
  by (simp add: handle_result_def)

lemma request_count_issued:
  "request_count (bfs_loop ep finish n bfs_init) = length (issued (bfs_loop ep finish n bfs_init))"
proof -
  have "inv ep (bfs_loop ep finish n bfs_init)" by (rule inv_loop) (rule inv_init)
  then show ?thesis unfolding inv_def inv_mid_def by blast
qed

lemma first_batch:
  "issued (bfs_loop ep finish 1 bfs_init) = take MAX_WORKERS (queue bfs_init)"
  using issued_iteration[OF inv_init, of ep finish]
  by (simp add: bfs_init_def ascii_lowercase_def)

lemma handle_result_flat:
  "\<not> expands ep prefix \<Longrightarrow>
   handle_result ep st prefix = st\<lparr>all_names := all_names st \<union> names_of ep prefix\<rparr>"
  by (auto simp: handle_result_def expands_def names_of_def Let_def split: option.splits)

lemma set_as_completed: "set (as_completed finish batch) = set batch"
  by (simp add: as_completed_def)

lemma handle_result_effect:
  assumes "inv_mid ep X st" and "p \<in> set (issued st)" and "p \<notin> X"
  shows "handle_result ep st p =
     st\<lparr>all_names := all_names st \<union> names_of ep p,
        queue := queue st @ expansion_of ep p,
        enqueued := enqueued st @ expansion_of ep p\<rparr>"
proof (cases "expands ep p")
  case False
  then show ?thesis by (simp add: handle_result_flat expansion_of_def)
next
  case True
  then obtain r names where r: "future_result ep p = Some r" "results r = Some names"
    by (auto simp: expands_def split: option.splits)
  have n: "names_of ep p = set names" using r by (simp add: names_of_def)
  define st1 where "st1 = st\<lparr>all_names := all_names st \<union> set names\<rparr>"
  have i1: "inv_mid ep X st1" using assms(1) by (simp add: st1_def inv_mid_names)
  have nonempty: "p \<noteq> []" using i1 assms(2) unfolding inv_mid_def st1_def by auto
  have fresh: "\<forall>c. p @ [c] \<notin> set (enqueued st1)"
  proof
    fix c
    show "p @ [c] \<notin> set (enqueued st1)"
    proof
      assume "p @ [c] \<in> set (enqueued st1)"
      with i1 have "length (p @ [c]) = 1 \<or> butlast (p @ [c]) \<in> X"
        unfolding inv_mid_def by blast
      with nonempty assms(3) show False by simp
    qed
  qed
  have proc: "\<forall>c \<in> set ascii_lowercase. p @ [c] \<notin> processed st1"
    using fresh i1 unfolding inv_mid_def by auto
  have "handle_result ep st p =
      st1\<lparr>queue := queue st1 @ extensions p, enqueued := enqueued st1 @ extensions p\<rparr>"
    using handle_result_expands[OF True, of st] foldl_expand_char[OF proc] r
    by (simp add: st1_def extensions_def)
  then show ?thesis using True n by (simp add: st1_def expansion_of_def)
qed

lemma foldl_handle_effect:
  "distinct ps \<Longrightarrow> set ps \<subseteq> set (issued st) \<Longrightarrow> set ps \<inter> X = {} \<Longrightarrow> inv_mid ep X st \<Longrightarrow>
   foldl (handle_result ep) st ps =
     st\<lparr>all_names := all_names st \<union> \<Union> (names_of ep ` set ps),
        queue := queue st @ new_prefixes ep ps,
        enqueued := enqueued st @ new_prefixes ep ps\<rparr>"
proof (induction ps arbitrary: X st)
  case Nil
  then show ?case by (simp add: new_prefixes_def)
next
  case (Cons p ps)
  define st' where "st' = handle_result ep st p"
  from Cons.prems have h: "inv_mid ep (insert p X) st'" "issued st' = issued st"
    unfolding st'_def using inv_mid_handle[of ep X st p] by auto
  have e: "st' = st\<lparr>all_names := all_names st \<union> names_of ep p,
        queue := queue st @ expansion_of ep p,
        enqueued := enqueued st @ expansion_of ep p\<rparr>"
    unfolding st'_def using Cons.prems by (intro handle_result_effect[of ep X]) auto
  have "foldl (handle_result ep) st' ps =
     st'\<lparr>all_names := all_names st' \<union> \<Union> (names_of ep ` set ps),
        queue := queue st' @ new_prefixes ep ps,
        enqueued := enqueued st' @ new_prefixes ep ps\<rparr>"
    using Cons.prems h by (intro Cons.IH[of st' "insert p X"]) auto
  then show ?case
    unfolding st'_def[symmetric] foldl_Cons e by (simp add: new_prefixes_def Un_assoc)
qed

lemma iteration_effect:
  assumes "inv ep st"
  shows "bfs_iteration ep finish st =
     st\<lparr>queue := drop MAX_WORKERS (queue st)
                 @ new_prefixes ep (as_completed finish (take MAX_WORKERS (queue st))),
        processed := processed st \<union> set (take MAX_WORKERS (queue st)),
        request_count := request_count st + length (take MAX_WORKERS (queue st)),
        issued := issued st @ take MAX_WORKERS (queue st),
        all_names := all_names st \<union> \<Union> (names_of ep ` set (take MAX_WORKERS (queue st))),
        enqueued := enqueued st
                 @ new_prefixes ep (as_completed finish (take MAX_WORKERS (queue st)))\<rparr>"
proof -
  define b where "b = take MAX_WORKERS (queue st)"
  define st1 where "st1 = st\<lparr>queue := drop MAX_WORKERS (queue st), processed := processed st \<union> set b\<rparr>"
  define st2 where "st2 = st1\<lparr>request_count := request_count st1 + length b, issued := issued st1 @ b\<rparr>"
  have it: "bfs_iteration ep finish st =
      (if b = [] then st1 else foldl (handle_result ep) st2 (as_completed finish b))"
    by (simp add: bfs_iteration_def dequeue_batch_inv[OF assms] b_def st1_def st2_def)
  from assms have i: "inv_mid ep (set (issued st)) st" by (simp add: inv_def)
  have q: "queue st = b @ drop MAX_WORKERS (queue st)" by (simp add: b_def)
  show ?thesis
  proof (cases "b = []")
    case True
    then have "queue st = []" unfolding b_def by (simp add: MAX_WORKERS_def)
    then show ?thesis using it True
      by (simp add: st1_def b_def new_prefixes_def as_completed_def)
  next
    case False
    have f: "enqueued st2 = enqueued st" "issued st2 = issued st @ b"
      "queue st2 = drop MAX_WORKERS (queue st)" "processed st2 = processed st \<union> set b"
      "request_count st2 = request_count st + length b" "all_names st2 = all_names st"
      by (simp_all add: st2_def st1_def)
    have e: "enqueued st = issued st @ b @ drop MAX_WORKERS (queue st)"
      using i q unfolding inv_mid_def by metis
    have dist: "distinct (enqueued st)" using i unfolding inv_mid_def by blast
    have i2: "processed st = set (issued st)" and i3: "request_count st = length (issued st)"
      and i4: "\<forall>e \<in> set (enqueued st). e \<noteq> [] \<and>
        (length e = 1 \<or> (butlast e \<in> set (issued st) \<and> expands ep (butlast e)
            \<and> last e \<in> set ascii_lowercase))"
      and i5: "\<forall>p \<in> set (issued st). expands ep p \<longrightarrow> set (extensions p) \<subseteq> set (enqueued st)"
      using i unfolding inv_mid_def by blast+
    have m: "inv_mid ep (set (issued st)) st2"
      unfolding inv_mid_def f
    proof (intro conjI)
      show "enqueued st = (issued st @ b) @ drop MAX_WORKERS (queue st)" using e by simp
      show "distinct (enqueued st)" by (rule dist)
      show "processed st \<union> set b = set (issued st @ b)" using i2 by simp
      show "set (issued st) \<subseteq> set (issued st @ b)" by simp
      show "request_count st + length b = length (issued st @ b)" using i3 by simp
      show "\<forall>e \<in> set (enqueued st). e \<noteq> [] \<and>
        (length e = 1 \<or> (butlast e \<in> set (issued st) \<and> expands ep (butlast e)
            \<and> last e \<in> set ascii_lowercase))" by (rule i4)
      show "\<forall>p \<in> set (issued st). expands ep p \<longrightarrow> set (extensions p) \<subseteq> set (enqueued st)"
        by (rule i5)
    qed
    have db: "distinct b" "set b \<inter> set (issued st) = {}"
      using dist unfolding e by auto
    have "foldl (handle_result ep) st2 (as_completed finish b) =
       st2\<lparr>all_names := all_names st2 \<union> \<Union> (names_of ep ` set (as_completed finish b)),
           queue := queue st2 @ new_prefixes ep (as_completed finish b),
           enqueued := enqueued st2 @ new_prefixes ep (as_completed finish b)\<rparr>"
      using db m
      by (intro foldl_handle_effect[of _ _ "set (issued st)"])
         (auto simp: as_completed_def f)
    then show ?thesis
      using False it unfolding b_def[symmetric]
      by (simp add: f set_as_completed st2_def st1_def)
  qed
qed

lemma outcome_cong:
  "answer ep query = answer ep' query \<Longrightarrow> outcome ep query as = outcome ep' query as"
  by (induction as) (auto split: reply.splits)

lemma outcome_first:
  "as \<noteq> [] \<Longrightarrow> answer ep query (hd as) = Response 200 json \<Longrightarrow>
   outcome ep query as = Some json"
  by (cases as) simp_all

lemma handle_result_answered_empty:
  assumes "\<forall>attempt < MAX_RETRIES. \<not> succeeded (answer ep prefix attempt)"
  shows "handle_result (answered_empty ep prefix) st q = handle_result ep st q"
proof (cases "q = prefix")
  case True
  from assms have "\<forall>a \<in> set [0..<MAX_RETRIES]. \<not> succeeded (answer ep prefix a)" by simp
  from outcome_None[OF this] have "future_result ep prefix = None"
    by (simp add: future_result_outcome)
  moreover have "future_result (answered_empty ep prefix) prefix =
      Some \<lparr>results = None, count = None\<rparr>"
    unfolding future_result_outcome
    by (rule outcome_first) (simp_all add: MAX_RETRIES_def answered_empty_def)
  ultimately show ?thesis using True by (simp add: handle_result_def)
next
  case False
  then have "answer (answered_empty ep prefix) q = answer ep q"
    by (simp add: answered_empty_def)
  then have "future_result (answered_empty ep prefix) q = future_result ep q"
    unfolding future_result_outcome by (rule outcome_cong)
  then show ?thesis by (simp add: handle_result_def)
qed

lemma bfs_iteration_answered_empty:
  assumes "\<forall>attempt < MAX_RETRIES. \<not> succeeded (answer ep prefix attempt)"
  shows "bfs_iteration (answered_empty ep prefix) finish st = bfs_iteration ep finish st"
proof -
  have h: "handle_result (answered_empty ep prefix) = handle_result ep"
    using handle_result_answered_empty[OF assms] by (intro ext)
  show ?thesis unfolding bfs_iteration_def h by (rule refl)
qed

lemma bfs_loop_answered_empty:
  assumes "\<forall>attempt < MAX_RETRIES. \<not> succeeded (answer ep prefix attempt)"
  shows "bfs_loop (answered_empty ep prefix) finish n st = bfs_loop ep finish n st"
  by (induction n arbitrary: st) (simp_all add: bfs_iteration_answered_empty[OF assms])

lemma new_prefixes_filter:
  "expansion_of ep p = [] \<Longrightarrow> new_prefixes ep (filter (\<lambda>q. q \<noteq> p) ps) = new_prefixes ep ps"
  by (induction ps) (auto simp: new_prefixes_def)

lemma sort_key_constant: "sort_key (\<lambda>x. c) xs = xs"
  by (induction xs) (simp_all add: insort_is_Cons)

lemma as_completed_submission_order: "as_completed submission_order batch = batch"
proof -
  have h: "submission_order = (\<lambda>x. 0)" by (intro ext) (simp add: submission_order_def)
  show ?thesis unfolding as_completed_def h by (rule sort_key_constant)
qed

lemma reachable_inv: "inv ep (bfs_loop ep finish n bfs_init)"
  by (rule inv_loop) (rule inv_init)

lemma bfs_loop_end:
  "bfs_loop ep finish (Suc n) st =
     (if queue (bfs_loop ep finish n st) = [] then bfs_loop ep finish n st
      else bfs_iteration ep finish (bfs_loop ep finish n st))"
proof (induction n arbitrary: st)
  case 0
  show ?case by simp
next
  case (Suc n)
  show ?case
  proof (cases "queue st = []")
    case True
    then show ?thesis by simp
  next
    case False
    have "bfs_loop ep finish (Suc (Suc n)) st = bfs_loop ep finish (Suc n) (bfs_iteration ep finish st)"
      using False by simp
    also have "\<dots> = (if queue (bfs_loop ep finish n (bfs_iteration ep finish st)) = []
        then bfs_loop ep finish n (bfs_iteration ep finish st)
        else bfs_iteration ep finish (bfs_loop ep finish n (bfs_iteration ep finish st)))"
      by (rule Suc.IH)
    also have "bfs_loop ep finish n (bfs_iteration ep finish st) = bfs_loop ep finish (Suc n) st"
      using False by simp
    finally show ?thesis .
  qed
qed

lemma expansion_in_new_prefixes:
  "p \<in> set ps \<Longrightarrow> set (expansion_of ep p) \<subseteq> set (new_prefixes ep ps)"
  by (auto simp: new_prefixes_def)

lemma failing_outcome:
  "outcome failing_endpoint p [0..<MAX_RETRIES] =
     (if p = ''a'' then None else if p = ''b'' then Some full_page else Some short_page)"
proof -
  have ne: "[0..<MAX_RETRIES] \<noteq> []" by (simp add: MAX_RETRIES_def)
  show ?thesis
  proof (cases "p = ''a''")
    case True
    have "\<forall>a \<in> set [0..<MAX_RETRIES]. \<not> succeeded (answer failing_endpoint ''a'' a)"
      by (simp add: failing_endpoint_def)
    from outcome_None[OF this] True show ?thesis by simp
  next
    case False
    have "outcome failing_endpoint p [0..<MAX_RETRIES] =
        Some (if p = ''b'' then full_page else short_page)"
      using False by (intro outcome_first ne) (simp add: MAX_RETRIES_def failing_endpoint_def)
    with False show ?thesis by simp
  qed
qed

lemma failing_expands: "expands failing_endpoint p \<longleftrightarrow> p = ''b''"
  by (simp add: expands_def future_result_outcome failing_outcome full_page_def short_page_def
      saturated_def)

lemma failing_names_of:
  "names_of failing_endpoint p =
     (if p = ''a'' then {} else if p = ''b'' then set ten_names else {''bob'', ''bill'', ''ben''})"
  by (auto simp: names_of_def future_result_outcome failing_outcome full_page_def short_page_def)

lemma failing_expansion_of:
  "expansion_of failing_endpoint p = (if p = ''b'' then extensions ''b'' else [])"
  by (simp add: expansion_of_def failing_expands)

lemma failing_pass1:
  "queue (bfs_iteration failing_endpoint submission_order bfs_init) =
     [''u'', ''v'', ''w'', ''x'', ''y'', ''z''] @ extensions ''b''"
  "all_names (bfs_iteration failing_endpoint submission_order bfs_init) =
     set ten_names \<union> {''bob'', ''bill'', ''ben''}"
  "request_count (bfs_iteration failing_endpoint submission_order bfs_init) = 20"
  unfolding iteration_effect[OF inv_init] as_completed_submission_order
  by (simp_all add: bfs_init_def ascii_lowercase_def MAX_WORKERS_def new_prefixes_def
      failing_expansion_of failing_names_of Un_commute)

lemma failing_run:
  "bfs_explore failing_endpoint submission_order 3 =
     Some (set ten_names \<union> {''bob'', ''bill'', ''ben''}, 52)"
proof -
  define st1 where "st1 = bfs_iteration failing_endpoint submission_order bfs_init"
  define st2 where "st2 = bfs_iteration failing_endpoint submission_order st1"
  define st3 where "st3 = bfs_iteration failing_endpoint submission_order st2"
  have i1: "inv failing_endpoint st1" unfolding st1_def by (rule inv_iteration[OF inv_init])
  have i2: "inv failing_endpoint st2" unfolding st2_def by (rule inv_iteration[OF i1])
  have q0: "queue bfs_init \<noteq> []" by (simp add: bfs_init_def ascii_lowercase_def)
  have q1: "queue st1 = [''u'', ''v'', ''w'', ''x'', ''y'', ''z''] @ extensions ''b''"
    and n1: "all_names st1 = set ten_names \<union> {''bob'', ''bill'', ''ben''}"
    and c1: "request_count st1 = 20"
    unfolding st1_def by (rule failing_pass1)+
  have q2: "queue st2 = map (\<lambda>c. ''b'' @ [c]) ''opqrstuvwxyz''"
    and n2: "all_names st2 = set ten_names \<union> {''bob'', ''bill'', ''ben''}"
    and c2: "request_count st2 = 40"
    unfolding st2_def iteration_effect[OF i1] as_completed_submission_order
    by (simp_all add: q1 n1 c1 extensions_def ascii_lowercase_def MAX_WORKERS_def
        new_prefixes_def failing_expansion_of failing_names_of Un_commute insert_commute)
  have q3: "queue st3 = []"
    and n3: "all_names st3 = set ten_names \<union> {''bob'', ''bill'', ''ben''}"
    and c3: "request_count st3 = 52"
    unfolding st3_def iteration_effect[OF i2] as_completed_submission_order
    by (simp_all add: q2 n2 c2 MAX_WORKERS_def new_prefixes_def failing_expansion_of
        failing_names_of Un_commute insert_commute)
  have q1': "queue st1 \<noteq> []" by (simp add: q1)
  have q2': "queue st2 \<noteq> []" by (simp add: q2)
  have "bfs_loop failing_endpoint submission_order 3 bfs_init = st3"
    using q0 q1' q2' by (simp add: numeral_3_eq_3 st1_def st2_def st3_def)
  then show ?thesis by (simp add: bfs_explore_def q3 c3 n3)
qed

lemma issued_loop_mono:
  "set (issued (bfs_loop ep finish n bfs_init))
     \<subseteq> set (issued (bfs_loop ep finish (n + k) bfs_init))"
proof (induction k)
  case 0
  show ?case by simp
next
  case (Suc k)
  have "set (issued (bfs_loop ep finish (n + k) bfs_init))
          \<subseteq> set (issued (bfs_loop ep finish (Suc (n + k)) bfs_init))"
    unfolding bfs_loop_end[of ep finish "n + k"]
    by (simp add: issued_iteration[OF reachable_inv])
  with Suc show ?case by simp
qed

lemma new_prefixes_split:
  "new_prefixes ep (xs @ p # ys) = new_prefixes ep xs @ expansion_of ep p @ new_prefixes ep ys"
  by (simp add: new_prefixes_def)

lemma reachable_facts:
  fixes ep finish m
  defines "st \<equiv> bfs_loop ep finish m bfs_init"
  shows "enqueued st = issued st @ queue st" and "distinct (enqueued st)"
    and "processed st = set (issued st)"
    and "e \<in> set (enqueued st) \<Longrightarrow> e \<noteq> [] \<and>
        (length e = 1 \<or> (butlast e \<in> set (issued st) \<and> expands ep (butlast e)
            \<and> last e \<in> set ascii_lowercase))"
    and "p \<in> set (issued st) \<Longrightarrow> expands ep p \<Longrightarrow> set (extensions p) \<subseteq> set (enqueued st)"
proof -
  have "inv ep st" unfolding st_def by (rule reachable_inv)
  then show "enqueued st = issued st @ queue st" and "distinct (enqueued st)"
    and "processed st = set (issued st)"
    and "e \<in> set (enqueued st) \<Longrightarrow> e \<noteq> [] \<and>
        (length e = 1 \<or> (butlast e \<in> set (issued st) \<and> expands ep (butlast e)
            \<and> last e \<in> set ascii_lowercase))"
    and "p \<in> set (issued st) \<Longrightarrow> expands ep p \<Longrightarrow> set (extensions p) \<subseteq> set (enqueued st)"
    unfolding inv_def inv_mid_def by blast+
qed

lemma count_list_append: "count_list (xs @ ys) x = count_list xs x + count_list ys x"
  by (induction xs) simp_all

lemma count_list_distinct_if:
  "distinct xs \<Longrightarrow> count_list xs x = (if x \<in> set xs then 1 else 0)"
  by (simp add: count_list_distinct count_list_0_iff)

text \<open>An extension of a prefix is on the queue or processed only once the prefix is issued and expands.\<close>

lemma extension_reachable:
  assumes "p \<noteq> []"
  shows "count_list (enqueued (bfs_loop ep finish m bfs_init)) (p @ [c]) =
           (if p \<in> set (issued (bfs_loop ep finish m bfs_init)) \<and> expands ep p
               \<and> c \<in> set ascii_lowercase then 1 else 0)"
    and "count_list (queue (bfs_loop ep finish m bfs_init)) (p @ [c])
           + (if p @ [c] \<in> processed (bfs_loop ep finish m bfs_init) then 1 else 0) =
           (if p \<in> set (issued (bfs_loop ep finish m bfs_init)) \<and> expands ep p
               \<and> c \<in> set ascii_lowercase then 1 else 0)"
proof -
  define st where "st = bfs_loop ep finish m bfs_init"
  note f = reachable_facts[where ep=ep and finish=finish and m=m, folded st_def]
  have a: "p @ [c] \<in> set (enqueued st) \<longleftrightarrow>
      p \<in> set (issued st) \<and> expands ep p \<and> c \<in> set ascii_lowercase"
  proof
    assume "p @ [c] \<in> set (enqueued st)"
    from f(4)[OF this] assms show "p \<in> set (issued st) \<and> expands ep p \<and> c \<in> set ascii_lowercase"
      by simp
  next
    assume h: "p \<in> set (issued st) \<and> expands ep p \<and> c \<in> set ascii_lowercase"
    then have "p @ [c] \<in> set (extensions p)" by (simp add: extensions_def)
    with f(5)[of p] h show "p @ [c] \<in> set (enqueued st)" by blast
  qed
  show 1: "count_list (enqueued st) (p @ [c]) =
           (if p \<in> set (issued st) \<and> expands ep p \<and> c \<in> set ascii_lowercase then 1 else 0)"
    unfolding count_list_distinct_if[OF f(2)] a by (rule refl)
  have di: "distinct (issued st)" using f(1,2) by simp
  have "count_list (queue st) (p @ [c]) + (if p @ [c] \<in> processed st then 1 else 0) =
      count_list (enqueued st) (p @ [c])"
    unfolding f(1) count_list_append f(3) count_list_distinct_if[OF di] by simp
  with 1 show "count_list (queue st) (p @ [c]) + (if p @ [c] \<in> processed st then 1 else 0) =
           (if p \<in> set (issued st) \<and> expands ep p \<and> c \<in> set ascii_lowercase then 1 else 0)"
    by simp
qed

text \<open>A prefix in the batch taken after \<open>n\<close> passes is issued in exactly the later states.\<close>

lemma batch_issued:
  assumes "p \<in> set (take MAX_WORKERS (queue (bfs_loop ep finish n bfs_init)))"
  shows "p \<in> set (issued (bfs_loop ep finish m bfs_init)) \<longleftrightarrow> n < m" and "p \<noteq> []"
proof -
  define st where "st = bfs_loop ep finish n bfs_init"
  note f = reachable_facts[where ep=ep and finish=finish and m=n, folded st_def]
  have pq: "p \<in> set (queue st)" using assms unfolding st_def by (rule in_set_takeD)
  then have "p \<in> set (enqueued st)" using f(1) by simp
  from f(4)[OF this] show "p \<noteq> []" by simp
  have notyet: "p \<notin> set (issued st)" using pq f(1,2) by auto
  have ne: "queue st \<noteq> []" using pq by auto
  have "bfs_loop ep finish (Suc n) bfs_init = bfs_iteration ep finish st"
    unfolding bfs_loop_end st_def[symmetric] using ne by simp
  then have "issued (bfs_loop ep finish (Suc n) bfs_init) = issued st @ take MAX_WORKERS (queue st)"
    by (simp add: issued_iteration[OF reachable_inv[of ep finish n]] st_def)
  then have now: "p \<in> set (issued (bfs_loop ep finish (Suc n) bfs_init))"
    using assms by (simp add: st_def)
  show "p \<in> set (issued (bfs_loop ep finish m bfs_init)) \<longleftrightarrow> n < m"
  proof (cases "n < m")
    case True
    then obtain k where "m = Suc n + k" by (metis less_iff_Suc_add add_Suc)
    with issued_loop_mono[of ep finish "Suc n" k] now True show ?thesis by blast
  next
    case False
    then obtain k where "n = m + k" by (metis le_Suc_ex not_less)
    with issued_loop_mono[of ep finish m k] notyet False show ?thesis
      unfolding st_def by blast
  qed
qed

lemma failing_a: "\<forall>attempt < MAX_RETRIES. \<not> succeeded (answer failing_endpoint ''a'' attempt)"
  by (simp add: failing_endpoint_def)

lemma Union_names_minus:
  "names_of ep p = {} \<Longrightarrow> \<Union> (names_of ep ` (S - {p})) = \<Union> (names_of ep ` S)"
  by auto



section \<open>The asynchronous client\<close>

lemma make_request_other:
  "\<not> told_to_wait (reply srv v query k) \<Longrightarrow>
   make_request srv depth v query k ex = (returned (reply srv v query k), attempted srv v query k ex)"
  by (cases depth; cases "reply srv v query k")
     (auto simp: Let_def attempted_def split: payload.splits option.splits)

lemma make_request_429:
  "told_to_wait (reply srv v query k) \<Longrightarrow>
   make_request srv (Suc depth) v query k ex =
     make_request srv depth v query (k + 1) (pause 61 (attempted srv v query k ex))"
  by (cases "reply srv v query k") (auto simp: Let_def attempted_def)

lemma make_request_limit:
  "told_to_wait (reply srv v query k) \<Longrightarrow>
   make_request srv 0 v query k ex = (JNames [], pause 61 (attempted srv v query k ex))"
  by (cases "reply srv v query k") (auto simp: Let_def attempted_def)

lemma attempted_fields:
  "requests_count (attempted srv v query k ex) = (requests_count ex)(v := requests_count ex v + 1)"
  "requests (attempted srv v query k ex) = requests ex @ [(time_now ex, v, query)]"
  "time_now (attempted srv v query k ex) = time_now ex + delay srv v query k"
  "pauses (attempted srv v query k ex) = pauses ex"
  "failure (attempted srv v query k ex) = failure ex"
  "writes (attempted srv v query k ex) = writes ex"
  by (simp_all add: attempted_def)

lemma pause_fields:
  "requests_count (pause d ex) = requests_count ex"
  "requests (pause d ex) = requests ex"
  "time_now (pause d ex) = time_now ex + d"
  "pauses (pause d ex) = pauses ex @ [d]"
  "failure (pause d ex) = failure ex"
  "writes (pause d ex) = writes ex"
  by (simp_all add: pause_def)


lemma make_request_counts:
  "requests_count (snd (make_request srv depth v query k ex)) v + length (requests ex) =
   requests_count ex v + length (requests (snd (make_request srv depth v query k ex)))"
proof (induction depth arbitrary: k ex)
  case 0
  show ?case
  proof (cases "told_to_wait (reply srv v query k)")
    case True
    show ?thesis unfolding make_request_limit[OF True] by (simp add: pause_fields attempted_fields)
  next
    case False
    show ?thesis unfolding make_request_other[OF False] by (simp add: attempted_fields)
  qed
next
  case (Suc depth)
  show ?case
  proof (cases "told_to_wait (reply srv v query k)")
    case True
    from Suc.IH[of "k + 1" "pause 61 (attempted srv v query k ex)"]
    show ?thesis unfolding make_request_429[OF True] by (simp add: pause_fields attempted_fields)
  next
    case False
    show ?thesis unfolding make_request_other[OF False] by (simp add: attempted_fields)
  qed
qed

text \<open>
  A query answered 429 on its first \<open>n\<close> attempts and otherwise on the next: \<open>n + 1\<close>
  requests and \<open>n\<close> pauses, when the nesting allowed reaches that far.
\<close>

lemma make_request_retries:
  "n \<le> depth \<Longrightarrow> \<forall>i < n. told_to_wait (reply srv v query (k + i)) \<Longrightarrow>
   \<not> told_to_wait (reply srv v query (k + n)) \<Longrightarrow>
   fst (make_request srv depth v query k ex) = returned (reply srv v query (k + n)) \<and>
   requests_count (snd (make_request srv depth v query k ex)) v = requests_count ex v + n + 1 \<and>
   pauses (snd (make_request srv depth v query k ex)) = pauses ex @ replicate n 61"
proof (induction n arbitrary: depth k ex)
  case 0
  then have "\<not> told_to_wait (reply srv v query k)" by simp
  from make_request_other[OF this] show ?case by (simp add: attempted_fields)
next
  case (Suc n)
  from Suc.prems(1) obtain d where d: "depth = Suc d" by (cases depth) auto
  from Suc.prems(2) have "told_to_wait (reply srv v query (k + 0))" by blast
  then have w: "told_to_wait (reply srv v query k)" by simp
  have a: "\<forall>i < n. told_to_wait (reply srv v query (k + 1 + i))"
  proof (intro allI impI)
    fix i assume "i < n"
    then have "Suc i < Suc n" by simp
    with Suc.prems(2) have "told_to_wait (reply srv v query (k + Suc i))" by blast
    then show "told_to_wait (reply srv v query (k + 1 + i))" by simp
  qed
  have b: "\<not> told_to_wait (reply srv v query (k + 1 + n))" using Suc.prems(3) by simp
  have c: "n \<le> d" using Suc.prems(1) d by simp
  from Suc.IH[OF c a b, of "pause 61 (attempted srv v query k ex)"]
  show ?case
    unfolding d make_request_429[OF w]
    by (simp add: pause_fields attempted_fields replicate_append_same)
qed

text \<open>The nesting allowed bounds the requests of one call.\<close>

lemma make_request_bound:
  "requests_count (snd (make_request srv depth v query k ex)) v \<le> requests_count ex v + depth + 1"
proof (induction depth arbitrary: k ex)
  case 0
  show ?case
  proof (cases "told_to_wait (reply srv v query k)")
    case True
    show ?thesis unfolding make_request_limit[OF True] by (simp add: pause_fields attempted_fields)
  next
    case False
    show ?thesis unfolding make_request_other[OF False] by (simp add: attempted_fields)
  qed
next
  case (Suc depth)
  show ?case
  proof (cases "told_to_wait (reply srv v query k)")
    case True
    from Suc.IH[of "k + 1" "pause 61 (attempted srv v query k ex)"]
    show ?thesis unfolding make_request_429[OF True] by (simp add: pause_fields attempted_fields)
  next
    case False
    show ?thesis unfolding make_request_other[OF False] by (simp add: attempted_fields)
  qed
qed

text \<open>A query answered 429 as far as the nesting reaches: the call gives up with the empty list.\<close>

lemma make_request_exhausted:
  "\<forall>i \<le> depth. told_to_wait (reply srv v query (k + i)) \<Longrightarrow>
   fst (make_request srv depth v query k ex) = JNames [] \<and>
   requests_count (snd (make_request srv depth v query k ex)) v = requests_count ex v + depth + 1 \<and>
   pauses (snd (make_request srv depth v query k ex)) = pauses ex @ replicate (depth + 1) 61"
proof (induction depth arbitrary: k ex)
  case 0
  then have "told_to_wait (reply srv v query k)" by simp
  from make_request_limit[OF this] show ?case by (simp add: pause_fields attempted_fields)
next
  case (Suc depth)
  from Suc.prems have "told_to_wait (reply srv v query (k + 0))" by blast
  then have w: "told_to_wait (reply srv v query k)" by simp
  have a: "\<forall>i \<le> depth. told_to_wait (reply srv v query (k + 1 + i))"
  proof (intro allI impI)
    fix i assume "i \<le> depth"
    then have "Suc i \<le> Suc depth" by simp
    with Suc.prems have "told_to_wait (reply srv v query (k + Suc i))" by blast
    then show "told_to_wait (reply srv v query (k + 1 + i))" by simp
  qed
  from Suc.IH[OF a, of "pause 61 (attempted srv v query k ex)"]
  show ?case
    unfolding make_request_429[OF w]
    by (simp add: pause_fields attempted_fields replicate_append_same)
qed





lemma request_and_update_failed:
  "failure ex \<noteq> None \<Longrightarrow> request_and_update srv depth v ex query = ex"
  by (simp add: request_and_update_def)



lemma fold_failed:
  "failure ex \<noteq> None \<Longrightarrow> foldl (request_and_update srv depth v) ex qs = ex"
  by (induction qs) (simp_all add: request_and_update_failed)




lemma foldl_singles: "foldl (\<lambda>e c. f e [c]) e cs = foldl f e (map (\<lambda>c. [c]) cs)"
  by (induction cs arbitrary: e) simp_all





lemma foldl_all_pairs:
  "foldl (\<lambda>e a. foldl (\<lambda>e b. f e [a, b]) e bs) e as =
   foldl f e (concat (map (\<lambda>a. map (\<lambda>b. [a, b]) bs) as))"
proof (induction as arbitrary: e)
  case Nil
  show ?case by simp
next
  case (Cons a as)
  have "foldl (\<lambda>e b. f e [a, b]) e bs = foldl f e (map (\<lambda>b. [a, b]) bs)" for e
    by (induction bs arbitrary: e) simp_all
  with Cons show ?case by simp
qed


lemma explore_v1_fold:
  "explore_v1 srv depth ex =
     foldl (request_and_update srv depth V1) ex
       (map (\<lambda>c. [c]) ascii_lowercase
        @ concat (map (\<lambda>a. map (\<lambda>b. [a, b]) ascii_lowercase) ascii_lowercase))"
  by (simp add: explore_v1_def Let_def foldl_singles foldl_all_pairs)



lemma unless_failed_pauses:
  assumes "\<And>ex. set (pauses (step ex)) \<subseteq> set (pauses ex) \<union> S"
  shows "set (pauses (unless_failed step ex)) \<subseteq> set (pauses ex) \<union> S"
  using assms by (simp add: unless_failed_def)





lemma busy_server_waits:
  "\<forall>i < 2. told_to_wait (reply busy_server v query (0 + i))"
  "\<not> told_to_wait (reply busy_server v query (0 + 2))"
  by (simp_all add: busy_server_def)

lemma stubborn_server_waits:
  "\<forall>i < 6. told_to_wait (reply stubborn_server v query (0 + i))"
  "\<not> told_to_wait (reply stubborn_server v query (0 + 6))"
  by (simp_all add: stubborn_server_def)

lemma new_explorer_fields:
  "requests_count new_explorer v = 0" "requests new_explorer = []" "pauses new_explorer = []"
  "failure new_explorer = None" "queries_sent new_explorer = []" "writes new_explorer = 0"
  "time_now new_explorer = 0"
  by (simp_all add: new_explorer_def queries_sent_def)


lemma ascii_first:
  "\<exists>rest. map (\<lambda>c. [c]) ascii_lowercase
        @ concat (map (\<lambda>a. map (\<lambda>b. [a, b]) ascii_lowercase) ascii_lowercase) = ''a'' # rest"
  by (simp add: ascii_lowercase_def)

lemma null_first:
  "request_and_update null_server depth v new_explorer query =
     (attempted null_server v query 0 new_explorer)\<lparr>failure := Some TypeError\<rparr>"
proof -
  have nw: "\<not> told_to_wait (reply null_server v query 0)" by (simp add: null_server_def)
  show ?thesis
    unfolding request_and_update_def make_request_other[OF nw]
    by (simp add: new_explorer_fields null_server_def)
qed



section \<open>The frontier\<close>

text \<open>
  C1. Whatever the endpoint answers and in whatever order the futures of a batch finish,
  after any number of passes of the loop the prefixes submitted to the executor are
  pairwise different, and so are the prefixes ever put on the queue, the 26 seeds
  included. The queue history is the issued prefixes followed by the pending queue.
\<close>

theorem no_duplicate_issuance:
  "distinct (issued (bfs_loop ep finish n bfs_init)) \<and>
   distinct (enqueued (bfs_loop ep finish n bfs_init)) \<and>
   enqueued (bfs_loop ep finish n bfs_init) =
     issued (bfs_loop ep finish n bfs_init) @ queue (bfs_loop ep finish n bfs_init)"
proof -
  have "inv ep (bfs_loop ep finish n bfs_init)"
    by (rule inv_loop) (rule inv_init)
  then have "enqueued (bfs_loop ep finish n bfs_init) =
     issued (bfs_loop ep finish n bfs_init) @ queue (bfs_loop ep finish n bfs_init)"
    and d: "distinct (enqueued (bfs_loop ep finish n bfs_init))"
    unfolding inv_def inv_mid_def by blast+
  then show ?thesis by (metis distinct_append)
qed

text \<open>
  C8. In every state the loop reaches, the batch taken is the first MAX_WORKERS prefixes
  of the queue in queue order and exactly the batch is submitted. After the pass the
  queue is the rest of the old queue, in its order, followed by the extensions that the
  results of the batch add, in the order in which the futures complete; the batch has
  joined the processed set, the request count has grown by the size of the batch and the
  names of the batch have joined the names found. The batch is shorter than MAX_WORKERS
  only when the queue is, and empty only when the queue is empty.
\<close>

theorem drain_fifo_batch:
  "dequeue_batch (bfs_loop ep finish n bfs_init) =
     (take MAX_WORKERS (queue (bfs_loop ep finish n bfs_init)),
      drop MAX_WORKERS (queue (bfs_loop ep finish n bfs_init)),
      processed (bfs_loop ep finish n bfs_init)
        \<union> set (take MAX_WORKERS (queue (bfs_loop ep finish n bfs_init)))) \<and>
   queue (bfs_iteration ep finish (bfs_loop ep finish n bfs_init)) =
     drop MAX_WORKERS (queue (bfs_loop ep finish n bfs_init))
       @ new_prefixes ep
           (as_completed finish (take MAX_WORKERS (queue (bfs_loop ep finish n bfs_init)))) \<and>
   processed (bfs_iteration ep finish (bfs_loop ep finish n bfs_init)) =
     processed (bfs_loop ep finish n bfs_init)
       \<union> set (take MAX_WORKERS (queue (bfs_loop ep finish n bfs_init))) \<and>
   request_count (bfs_iteration ep finish (bfs_loop ep finish n bfs_init)) =
     request_count (bfs_loop ep finish n bfs_init)
       + length (take MAX_WORKERS (queue (bfs_loop ep finish n bfs_init))) \<and>
   all_names (bfs_iteration ep finish (bfs_loop ep finish n bfs_init)) =
     all_names (bfs_loop ep finish n bfs_init)
       \<union> \<Union> (names_of ep ` set (take MAX_WORKERS (queue (bfs_loop ep finish n bfs_init)))) \<and>
   issued (bfs_iteration ep finish (bfs_loop ep finish n bfs_init)) =
     issued (bfs_loop ep finish n bfs_init)
       @ take MAX_WORKERS (queue (bfs_loop ep finish n bfs_init)) \<and>
   length (take MAX_WORKERS (queue (bfs_loop ep finish n bfs_init))) =
     min MAX_WORKERS (length (queue (bfs_loop ep finish n bfs_init))) \<and>
   (take MAX_WORKERS (queue (bfs_loop ep finish n bfs_init)) = []
      \<longleftrightarrow> queue (bfs_loop ep finish n bfs_init) = [])"
proof -
  define st where "st = bfs_loop ep finish n bfs_init"
  have i: "inv ep st" unfolding st_def by (rule reachable_inv)
  note e = iteration_effect[OF i, of finish]
  have a: "dequeue_batch st =
     (take MAX_WORKERS (queue st), drop MAX_WORKERS (queue st),
      processed st \<union> set (take MAX_WORKERS (queue st)))"
    by (rule dequeue_batch_inv[OF i])
  have b: "queue (bfs_iteration ep finish st) =
     drop MAX_WORKERS (queue st)
       @ new_prefixes ep (as_completed finish (take MAX_WORKERS (queue st)))"
    "processed (bfs_iteration ep finish st) =
       processed st \<union> set (take MAX_WORKERS (queue st))"
    "request_count (bfs_iteration ep finish st) =
       request_count st + length (take MAX_WORKERS (queue st))"
    "all_names (bfs_iteration ep finish st) =
       all_names st \<union> \<Union> (names_of ep ` set (take MAX_WORKERS (queue st)))"
    "issued (bfs_iteration ep finish st) = issued st @ take MAX_WORKERS (queue st)"
    unfolding e by simp_all
  have c: "length (take MAX_WORKERS (queue st)) = min MAX_WORKERS (length (queue st))"
    by simp
  have d: "take MAX_WORKERS (queue st) = [] \<longleftrightarrow> queue st = []"
    by (simp add: MAX_WORKERS_def)
  from a b c d show ?thesis unfolding st_def by blast
qed

theorem drain_fifo_batch_witness:
  "dequeue_batch (bfs_loop failing_endpoint submission_order 0 bfs_init) =
     (map (\<lambda>c. [c]) ''abcdefghijklmnopqrst'', map (\<lambda>c. [c]) ''uvwxyz'',
      set (map (\<lambda>c. [c]) ''abcdefghijklmnopqrst'')) \<and>
   queue (bfs_iteration failing_endpoint submission_order
            (bfs_loop failing_endpoint submission_order 0 bfs_init)) =
     map (\<lambda>c. [c]) ''uvwxyz'' @ extensions ''b'' \<and>
   request_count (bfs_iteration failing_endpoint submission_order
            (bfs_loop failing_endpoint submission_order 0 bfs_init)) = 20"
  using drain_fifo_batch[of failing_endpoint submission_order 0]
  unfolding as_completed_submission_order
  by (simp add: bfs_init_def ascii_lowercase_def MAX_WORKERS_def new_prefixes_def
      failing_expansion_of)

text \<open>
  C5. Let a prefix be in the batch taken after \<open>n\<close> passes and its future return a body
  that holds results. If the count of the body is 10, the pass appends the extensions of
  the prefix by the 26 lowercase letters to the queue, together and in alphabetical
  order, each occurring once in the queue after the pass; in every later state of the run
  each of them is either once on the queue or in the processed set, never both, and in no
  earlier state it is on the queue or processed; it occurs once in the queue history from
  that pass on. If the count is not 10, no extension of the prefix by any character is
  on the queue, processed or in the queue history in any state of the run.
\<close>

theorem expansion_correctness:
  assumes "p \<in> set (take MAX_WORKERS (queue (bfs_loop ep finish n bfs_init)))"
    and "future_result ep p = Some r" and "results r = Some names"
  shows "(saturated r \<longrightarrow>
            (\<exists>before after.
               queue (bfs_iteration ep finish (bfs_loop ep finish n bfs_init)) =
                 before @ map (\<lambda>c. p @ [c]) ascii_lowercase @ after) \<and>
            (\<forall>c \<in> set ascii_lowercase.
               count_list (queue (bfs_iteration ep finish (bfs_loop ep finish n bfs_init)))
                 (p @ [c]) = 1 \<and>
               (\<forall>m. count_list (queue (bfs_loop ep finish m bfs_init)) (p @ [c])
                      + (if p @ [c] \<in> processed (bfs_loop ep finish m bfs_init) then 1 else 0) =
                    (if n < m then 1 else 0)) \<and>
               (\<forall>m. count_list (enqueued (bfs_loop ep finish m bfs_init)) (p @ [c]) =
                    (if n < m then 1 else 0)))) \<and>
         (\<not> saturated r \<longrightarrow>
            (\<forall>c m. p @ [c] \<notin> set (queue (bfs_loop ep finish m bfs_init)) \<and>
                   p @ [c] \<notin> processed (bfs_loop ep finish m bfs_init) \<and>
                   count_list (enqueued (bfs_loop ep finish m bfs_init)) (p @ [c]) = 0))"
proof -
  define st where "st = bfs_loop ep finish n bfs_init"
  note b = batch_issued[OF assms(1)]
  note x = extension_reachable[OF b(2), of ep finish, unfolded b(1)]
  have ex: "expands ep p = saturated r" using assms(2,3) by (simp add: expands_def)
  have ne: "queue st \<noteq> []" using assms(1) unfolding st_def by auto
  have nxt: "bfs_iteration ep finish st = bfs_loop ep finish (Suc n) bfs_init"
    unfolding bfs_loop_end st_def[symmetric] using ne by simp
  have blk: "\<exists>before after. queue (bfs_iteration ep finish st) =
        before @ map (\<lambda>c. p @ [c]) ascii_lowercase @ after" if "saturated r"
  proof -
    have "p \<in> set (as_completed finish (take MAX_WORKERS (queue st)))"
      using assms(1) by (simp add: set_as_completed st_def)
    then obtain xs ys where s: "as_completed finish (take MAX_WORKERS (queue st)) = xs @ p # ys"
      by (auto dest: split_list)
    have e: "expansion_of ep p = map (\<lambda>c. p @ [c]) ascii_lowercase"
      using that ex by (simp add: expansion_of_def extensions_def)
    have "queue (bfs_iteration ep finish st) =
        (drop MAX_WORKERS (queue st) @ new_prefixes ep xs)
          @ map (\<lambda>c. p @ [c]) ascii_lowercase @ new_prefixes ep ys"
      unfolding iteration_effect[OF reachable_inv[of ep finish n], folded st_def] s
        new_prefixes_split e by simp
    then show ?thesis by blast
  qed
  have one: "count_list (queue (bfs_iteration ep finish st)) (p @ [c]) = 1"
    if "saturated r" "c \<in> set ascii_lowercase" for c
  proof -
    have np: "p @ [c] \<notin> processed (bfs_loop ep finish (Suc n) bfs_init)"
    proof
      assume "p @ [c] \<in> processed (bfs_loop ep finish (Suc n) bfs_init)"
      then have i: "p @ [c] \<in> set (issued (bfs_loop ep finish (Suc n) bfs_init))"
        unfolding reachable_facts(3)[where ep=ep and finish=finish and m="Suc n"] .
      then have "p @ [c] \<in> set (issued st) \<or> p @ [c] \<in> set (take MAX_WORKERS (queue st))"
        unfolding nxt[symmetric] issued_iteration[OF reachable_inv[of ep finish n], folded st_def]
        by simp
      then have "p @ [c] \<in> set (enqueued st)"
        using reachable_facts(1)[where ep=ep and finish=finish and m=n, folded st_def] by (auto dest: in_set_takeD)
      then have "count_list (enqueued st) (p @ [c]) \<noteq> 0"
        unfolding count_list_0_iff by simp
      with x(1)[of n c] show False by (simp add: st_def)
    qed
    from x(2)[of "Suc n" c] np that ex show ?thesis unfolding nxt by simp
  qed
  have sat: "count_list (queue (bfs_loop ep finish m bfs_init)) (p @ [c])
                + (if p @ [c] \<in> processed (bfs_loop ep finish m bfs_init) then 1 else 0) =
              (if n < m then 1 else 0)"
     "count_list (enqueued (bfs_loop ep finish m bfs_init)) (p @ [c]) = (if n < m then 1 else 0)"
    if "saturated r" "c \<in> set ascii_lowercase" for c m
    using x(1)[of m c] x(2)[of m c] that ex by simp_all
  have unsat: "p @ [c] \<notin> set (queue (bfs_loop ep finish m bfs_init)) \<and>
               p @ [c] \<notin> processed (bfs_loop ep finish m bfs_init) \<and>
               count_list (enqueued (bfs_loop ep finish m bfs_init)) (p @ [c]) = 0"
    if "\<not> saturated r" for c m
  proof -
    have 1: "count_list (enqueued (bfs_loop ep finish m bfs_init)) (p @ [c]) = 0"
      using x(1)[of m c] that ex by simp
    have 2: "count_list (queue (bfs_loop ep finish m bfs_init)) (p @ [c])
                + (if p @ [c] \<in> processed (bfs_loop ep finish m bfs_init) then 1 else 0) = 0"
      using x(2)[of m c] that ex by simp
    then have "count_list (queue (bfs_loop ep finish m bfs_init)) (p @ [c]) = 0"
      and "p @ [c] \<notin> processed (bfs_loop ep finish m bfs_init)"
      by (simp_all split: if_splits)
    with 1 show ?thesis by (simp add: count_list_0_iff)
  qed
  from blk one sat unsat show ?thesis unfolding st_def by blast
qed

theorem expansion_correctness_witness:
  "''b'' \<in> set (take MAX_WORKERS (queue (bfs_loop failing_endpoint submission_order 0 bfs_init))) \<and>
   future_result failing_endpoint ''b'' = Some full_page \<and>
   results full_page = Some ten_names \<and> saturated full_page \<and>
   count_list (queue (bfs_iteration failing_endpoint submission_order
                        (bfs_loop failing_endpoint submission_order 0 bfs_init))) ''bc'' = 1 \<and>
   count_list (queue (bfs_loop failing_endpoint submission_order 1 bfs_init)) ''bc''
     + (if ''bc'' \<in> processed (bfs_loop failing_endpoint submission_order 1 bfs_init)
        then 1 else 0) = 1 \<and>
   ''c'' \<in> set (take MAX_WORKERS (queue (bfs_loop failing_endpoint submission_order 0 bfs_init))) \<and>
   future_result failing_endpoint ''c'' = Some short_page \<and>
   results short_page = Some [''bob'', ''bill'', ''ben''] \<and> \<not> saturated short_page \<and>
   ''ca'' \<notin> set (queue (bfs_loop failing_endpoint submission_order 1 bfs_init))"
proof -
  have b1: "''b'' \<in> set (take MAX_WORKERS (queue (bfs_loop failing_endpoint submission_order 0 bfs_init)))"
    and c1: "''c'' \<in> set (take MAX_WORKERS (queue (bfs_loop failing_endpoint submission_order 0 bfs_init)))"
    by (simp_all add: bfs_init_def ascii_lowercase_def MAX_WORKERS_def)
  have b2: "future_result failing_endpoint ''b'' = Some full_page"
    and c2: "future_result failing_endpoint ''c'' = Some short_page"
    by (simp_all add: future_result_outcome failing_outcome)
  have b3: "results full_page = Some ten_names" and b4: "saturated full_page"
    by (simp_all add: full_page_def saturated_def)
  have c3: "results short_page = Some [''bob'', ''bill'', ''ben'']" and c4: "\<not> saturated short_page"
    by (simp_all add: short_page_def saturated_def)
  have l: "CHR ''c'' \<in> set ascii_lowercase" by (simp add: ascii_lowercase_def)
  note t = expansion_correctness[OF b1 b2 b3, THEN conjunct1, rule_format, OF b4,
      THEN conjunct2, rule_format, OF l]
  from t[THEN conjunct1]
  have b5: "count_list (queue (bfs_iteration failing_endpoint submission_order
                        (bfs_loop failing_endpoint submission_order 0 bfs_init))) ''bc'' = 1"
    by simp
  from t[THEN conjunct2, THEN conjunct1, rule_format, of 1]
  have b6: "count_list (queue (bfs_loop failing_endpoint submission_order 1 bfs_init)) ''bc''
     + (if ''bc'' \<in> processed (bfs_loop failing_endpoint submission_order 1 bfs_init)
        then 1 else 0) = 1"
    by simp
  from expansion_correctness[OF c1 c2 c3, THEN conjunct2, rule_format, OF c4,
      THEN conjunct1, of "CHR ''a''" 1]
  have c5: "''ca'' \<notin> set (queue (bfs_loop failing_endpoint submission_order 1 bfs_init))"
    by simp
  from b1 b2 b3 b4 b5 b6 c1 c2 c3 c4 c5 show ?thesis by blast
qed
section \<open>Failures of a fetch\<close>

text \<open>
  C7. If none of the MAX_RETRIES attempts for a prefix is answered 200, then
  make\_api\_request returns None after exactly MAX_RETRIES requests and raises nothing,
  and the result loop leaves the state as it is for that prefix. In the pass that takes
  the batch after \<open>n\<close> passes, the names found grow by the names of the other prefixes
  of the batch, the queue becomes the rest of the old queue followed by the extensions
  that the other results of the batch add, in completion order, and the request count
  grows by the size of the batch. No extension of the prefix is on the queue or processed
  in any state of the run. The states of the run, and what the run returns, are those of
  the run against the endpoint that answers this prefix at once with a body holding
  neither results nor count. The instance that follows is a run whose first prefix a
  fails: the run returns after three passes with the names of the other prefixes, having
  expanded b.
\<close>

theorem exhausted_retries_absorbed:
  assumes "\<forall>attempt < MAX_RETRIES. \<not> succeeded (answer ep prefix attempt)"
    and "0 < limit (limiter w)"
  shows "fst (make_api_request ep prefix w) = Inr None \<and>
         sends (new_events w (snd (make_api_request ep prefix w))) = MAX_RETRIES \<and>
         future_result ep prefix = None \<and>
         handle_result ep st prefix = st \<and>
         foldl (handle_result ep) st (before @ prefix # after) =
           foldl (handle_result ep) st (before @ after) \<and>
         all_names (bfs_iteration ep finish (bfs_loop ep finish n bfs_init)) =
           all_names (bfs_loop ep finish n bfs_init)
             \<union> \<Union> (names_of ep `
                   (set (take MAX_WORKERS (queue (bfs_loop ep finish n bfs_init))) - {prefix})) \<and>
         queue (bfs_iteration ep finish (bfs_loop ep finish n bfs_init)) =
           drop MAX_WORKERS (queue (bfs_loop ep finish n bfs_init))
             @ new_prefixes ep
                 (filter (\<lambda>q. q \<noteq> prefix)
                    (as_completed finish
                       (take MAX_WORKERS (queue (bfs_loop ep finish n bfs_init))))) \<and>
         request_count (bfs_iteration ep finish (bfs_loop ep finish n bfs_init)) =
           request_count (bfs_loop ep finish n bfs_init)
             + length (take MAX_WORKERS (queue (bfs_loop ep finish n bfs_init))) \<and>
         (\<forall>c m. prefix \<noteq> [] \<longrightarrow>
            prefix @ [c] \<notin> set (queue (bfs_loop ep finish m bfs_init)) \<and>
            prefix @ [c] \<notin> processed (bfs_loop ep finish m bfs_init)) \<and>
         bfs_loop ep finish n bfs_init = bfs_loop (answered_empty ep prefix) finish n bfs_init \<and>
         bfs_explore ep finish n = bfs_explore (answered_empty ep prefix) finish n"
proof -
  define s where "s = bfs_loop ep finish n bfs_init"
  from assms(1) have "\<forall>a \<in> set [0..<MAX_RETRIES]. \<not> succeeded (answer ep prefix a)" by simp
  from outcome_None[OF this]
  have o: "outcome ep prefix [0..<MAX_RETRIES] = None"
    and m: "attempts_made ep prefix [0..<MAX_RETRIES] = [0..<MAX_RETRIES]" by simp_all
  have a: "fst (make_api_request ep prefix w) = Inr None"
    using try_attempts_result[OF assms(2), of ep prefix "[0..<MAX_RETRIES]"] o
    by (simp add: make_api_request_def)
  have b: "sends (new_events w (snd (make_api_request ep prefix w))) = MAX_RETRIES"
    using make_api_request_trace[OF assms(2), of ep prefix] m by simp
  have c: "future_result ep prefix = None" using o by (simp add: future_result_outcome)
  have d: "handle_result ep st' prefix = st'" for st' by (rule handle_result_None[OF c])
  have e: "foldl (handle_result ep) st (before @ prefix # after) =
           foldl (handle_result ep) st (before @ after)"
    by (simp add: d)
  have nn: "names_of ep prefix = {}" using c by (simp add: names_of_def)
  have ne: "\<not> expands ep prefix" using c by (simp add: expands_def)
  then have xn: "expansion_of ep prefix = []" by (simp add: expansion_of_def)
  note eff = iteration_effect[OF reachable_inv[of ep finish n], folded s_def]
  have f: "all_names (bfs_iteration ep finish s) =
      all_names s \<union> \<Union> (names_of ep ` (set (take MAX_WORKERS (queue s)) - {prefix}))"
    unfolding eff Union_names_minus[OF nn] by simp
  have g: "queue (bfs_iteration ep finish s) =
      drop MAX_WORKERS (queue s)
        @ new_prefixes ep (filter (\<lambda>q. q \<noteq> prefix)
              (as_completed finish (take MAX_WORKERS (queue s))))"
    unfolding eff new_prefixes_filter[OF xn] by simp
  have h: "request_count (bfs_iteration ep finish s) =
      request_count s + length (take MAX_WORKERS (queue s))"
    unfolding eff by simp
  have i: "prefix @ [c] \<notin> set (queue (bfs_loop ep finish m bfs_init)) \<and>
           prefix @ [c] \<notin> processed (bfs_loop ep finish m bfs_init)"
    if "prefix \<noteq> []" for c m
  proof -
    from extension_reachable(2)[OF that, of ep finish m c] ne
    have "count_list (queue (bfs_loop ep finish m bfs_init)) (prefix @ [c])
            + (if prefix @ [c] \<in> processed (bfs_loop ep finish m bfs_init) then 1 else 0) = 0"
      by simp
    then have "count_list (queue (bfs_loop ep finish m bfs_init)) (prefix @ [c]) = 0"
      and "prefix @ [c] \<notin> processed (bfs_loop ep finish m bfs_init)"
      by (simp_all split: if_splits)
    then show ?thesis by (simp add: count_list_0_iff)
  qed
  have j: "s = bfs_loop (answered_empty ep prefix) finish n bfs_init"
    unfolding s_def by (rule bfs_loop_answered_empty[OF assms(1), symmetric])
  have k: "bfs_explore ep finish n = bfs_explore (answered_empty ep prefix) finish n"
    unfolding bfs_explore_def bfs_loop_answered_empty[OF assms(1)] by (rule refl)
  from a b c d e f g h i j k show ?thesis unfolding s_def by blast
qed

theorem exhausted_retries_absorbed_witness:
  "\<not> succeeded (answer failing_endpoint ''a'' 0) \<and>
   \<not> succeeded (answer failing_endpoint ''a'' 4) \<and>
   0 < limit (limiter fresh_world) \<and>
   fst (make_api_request failing_endpoint ''a'' fresh_world) = Inr None \<and>
   sends (new_events fresh_world (snd (make_api_request failing_endpoint ''a'' fresh_world))) = 5 \<and>
   future_result failing_endpoint ''a'' = None \<and>
   handle_result failing_endpoint bfs_init ''a'' = bfs_init \<and>
   all_names (bfs_iteration failing_endpoint submission_order
                (bfs_loop failing_endpoint submission_order 0 bfs_init)) =
     set ten_names \<union> {''bob'', ''bill'', ''ben''} \<and>
   queue (bfs_iteration failing_endpoint submission_order
            (bfs_loop failing_endpoint submission_order 0 bfs_init)) =
     [''u'', ''v'', ''w'', ''x'', ''y'', ''z''] @ extensions ''b'' \<and>
   request_count (bfs_iteration failing_endpoint submission_order
                    (bfs_loop failing_endpoint submission_order 0 bfs_init)) = 20 \<and>
   ''aa'' \<notin> set (queue (bfs_loop failing_endpoint submission_order 1 bfs_init)) \<and>
   bfs_explore (answered_empty failing_endpoint ''a'') submission_order 3 =
     Some (set ten_names \<union> {''bob'', ''bill'', ''ben''}, 52) \<and>
   bfs_explore failing_endpoint submission_order 3 =
     Some (set ten_names \<union> {''bob'', ''bill'', ''ben''}, 52)"
proof -
  have l: "0 < limit (limiter fresh_world)" by (simp add: fresh_world_def RATE_LIMIT_def)
  note t = exhausted_retries_absorbed[OF failing_a l, of bfs_init "[]" "[]" submission_order 0]
  note u = exhausted_retries_absorbed[OF failing_a l, of bfs_init "[]" "[]" submission_order 3]
  have 1: "\<not> succeeded (answer failing_endpoint ''a'' 0) \<and>
           \<not> succeeded (answer failing_endpoint ''a'' 4)"
    by (simp add: failing_endpoint_def)
  from t have 2: "fst (make_api_request failing_endpoint ''a'' fresh_world) = Inr None"
    and 3: "sends (new_events fresh_world (snd (make_api_request failing_endpoint ''a'' fresh_world))) = 5"
    and 4: "future_result failing_endpoint ''a'' = None"
    and 5: "handle_result failing_endpoint bfs_init ''a'' = bfs_init"
    by (simp_all add: MAX_RETRIES_def)
  from t have "\<forall>c m. ''a'' \<noteq> [] \<longrightarrow>
            ''a'' @ [c] \<notin> set (queue (bfs_loop failing_endpoint submission_order m bfs_init)) \<and>
            ''a'' @ [c] \<notin> processed (bfs_loop failing_endpoint submission_order m bfs_init)"
    by (elim conjE) assumption
  from this[rule_format, of "CHR ''a''" 1]
  have 6: "''aa'' \<notin> set (queue (bfs_loop failing_endpoint submission_order 1 bfs_init))"
    by simp
  from u have 7: "bfs_explore (answered_empty failing_endpoint ''a'') submission_order 3 =
     Some (set ten_names \<union> {''bob'', ''bill'', ''ben''}, 52)"
    by (simp add: failing_run)
  from 1 l 2 3 4 5 6 7 failing_run failing_pass1 show ?thesis by simp
qed
section \<open>The asynchronous client at its boundary\<close>

text \<open>
  C9. The annotation of make\_request promises a list, and every path but one returns
  one: an exception of the request, a status other than 200 and 429, a 200 whose body
  does not parse or holds no results, each give the empty list. A 200 whose body holds
  null under results is returned as it is: the caller receives None, and the update of
  the names raises a TypeError that ends the exploration after its first request.
\<close>

theorem make_request_returns_null:
  "reply null_server V1 ''a'' 0 = Answer 200 (Json (Some JNull)) \<and>
   fst (make_request null_server 980 V1 ''a'' 0 new_explorer) = JNull \<and>
   iterate (fst (make_request null_server 980 V1 ''a'' 0 new_explorer)) = None \<and>
   failure (request_and_update null_server 980 V1 new_explorer ''a'') = Some TypeError \<and>
   failure (explore_v1 null_server 980 new_explorer) = Some TypeError \<and>
   queries_sent (explore_v1 null_server 980 new_explorer) = [''a'']"
proof -
  have nw: "\<not> told_to_wait (reply null_server V1 ''a'' 0)" by (simp add: null_server_def)
  have a: "reply null_server V1 ''a'' 0 = Answer 200 (Json (Some JNull))"
    by (simp add: null_server_def)
  have b: "fst (make_request null_server 980 V1 ''a'' 0 new_explorer) = JNull"
    unfolding make_request_other[OF nw] by (simp add: a)
  have c: "failure (request_and_update null_server 980 V1 new_explorer ''a'') = Some TypeError"
    "queries_sent (request_and_update null_server 980 V1 new_explorer ''a'') = [''a'']"
    unfolding null_first by (simp_all add: queries_sent_def attempted_fields new_explorer_fields)
  from ascii_first obtain rest where r: "map (\<lambda>c. [c]) ascii_lowercase
        @ concat (map (\<lambda>a. map (\<lambda>b. [a, b]) ascii_lowercase) ascii_lowercase) = ''a'' # rest"
    by blast
  have d: "explore_v1 null_server 980 new_explorer =
      request_and_update null_server 980 V1 new_explorer ''a''"
    unfolding explore_v1_fold r foldl_Cons by (rule fold_failed) (simp add: c)
  from a b c show ?thesis unfolding d by simp
qed

text \<open>The failures that make\_request does absorb.\<close>

lemma make_request_absorbs:
  assumes "failed_reply (reply srv v query k)"
  shows "fst (make_request srv depth v query k ex) = JNames [] \<and>
         failure (snd (make_request srv depth v query k ex)) = failure ex \<and>
         requests_count (snd (make_request srv depth v query k ex)) v =
           requests_count ex v + 1"
proof -
  from assms have nw: "\<not> told_to_wait (reply srv v query k)"
    by (cases "reply srv v query k") auto
  from assms have r: "returned (reply srv v query k) = JNames []"
    by (cases "reply srv v query k") auto
  show ?thesis unfolding make_request_other[OF nw] r by (simp add: attempted_fields)
qed




section \<open>When the limiter hears of a request\<close>



section \<open>Retrying after a 429\<close>

text \<open>
  C4, as stated, fails for the asynchronous client, which has no retry count. A server
  that answers 429 to the first six attempts for a query is asked seven times, more than
  MAX_RETRIES, and the pause before each retry is 61 seconds whatever the attempt.
\<close>

theorem retry_bound_counterexample:
  "fst (make_request stubborn_server 980 V1 ''e'' 0 new_explorer) = JNames [''eve''] \<and>
   requests_count (snd (make_request stubborn_server 980 V1 ''e'' 0 new_explorer)) V1 = 7 \<and>
   MAX_RETRIES < requests_count (snd (make_request stubborn_server 980 V1 ''e'' 0 new_explorer)) V1 \<and>
   pauses (snd (make_request stubborn_server 980 V1 ''e'' 0 new_explorer)) = [61, 61, 61, 61, 61, 61]"
proof -
  have le: "(6::nat) \<le> 980" by simp
  have r: "replicate 6 (61::time) = [61, 61, 61, 61, 61, 61]" by (simp add: numeral_eq_Suc)
  from make_request_retries[OF le stubborn_server_waits, of V1 "''e''" new_explorer]
  show ?thesis
    unfolding r by (simp add: new_explorer_fields stubborn_server_def MAX_RETRIES_def)
qed

text \<open>
  C4, amended. In app.py at most MAX_RETRIES requests are sent for a prefix, and an
  attempt answered 429 is followed by a sleep of 60 seconds times the attempt number
  counted from one. The asynchronous client has no retry count and pauses 61 seconds
  whatever the attempt: a query answered 429 on its first \<open>n\<close> attempts is asked \<open>n + 1\<close>
  times after \<open>n\<close> pauses of 61 seconds, as long as \<open>n\<close> nested calls are within what
  the interpreter allows. Only that limit bounds the retries: a call makes at most one
  request more than the nesting allowed, and a query answered 429 that far is given up
  with the empty list.
\<close>

theorem retries_after_429:
  assumes "0 < limit (limiter w)"
  shows "sends (new_events w (snd (make_api_request ep prefix w))) \<le> MAX_RETRIES \<and>
         (\<forall>attempt \<in> set (attempts_made ep prefix [0..<MAX_RETRIES]).
            rate_limited (answer ep prefix attempt) \<longrightarrow>
            Sleep (60 * (of_nat attempt + 1))
              \<in> set (new_events w (snd (make_api_request ep prefix w)))) \<and>
         (n \<le> depth \<and> (\<forall>i < n. told_to_wait (reply srv v query (k + i))) \<and>
          \<not> told_to_wait (reply srv v query (k + n)) \<longrightarrow>
            requests_count (snd (make_request srv depth v query k ex)) v =
              requests_count ex v + n + 1 \<and>
            pauses (snd (make_request srv depth v query k ex)) = pauses ex @ replicate n 61 \<and>
            fst (make_request srv depth v query k ex) = returned (reply srv v query (k + n))) \<and>
         requests_count (snd (make_request srv depth v query k ex)) v
           \<le> requests_count ex v + depth + 1 \<and>
         ((\<forall>i \<le> depth. told_to_wait (reply srv v query (k + i))) \<longrightarrow>
            fst (make_request srv depth v query k ex) = JNames [] \<and>
            requests_count (snd (make_request srv depth v query k ex)) v =
              requests_count ex v + depth + 1 \<and>
            pauses (snd (make_request srv depth v query k ex)) =
              pauses ex @ replicate (depth + 1) 61)"
proof -
  from make_api_request_trace[OF assms(1), of ep prefix]
  have s: "sends (new_events w (snd (make_api_request ep prefix w))) =
           length (attempts_made ep prefix [0..<MAX_RETRIES])"
    and c: "\<forall>attempt \<in> set (attempts_made ep prefix [0..<MAX_RETRIES]).
            rate_limited (answer ep prefix attempt) \<longrightarrow>
            Sleep (60 * (of_nat attempt + 1))
              \<in> set (new_events w (snd (make_api_request ep prefix w)))"
    by blast+
  have "length (attempts_made ep prefix [0..<MAX_RETRIES]) \<le> length [0..<MAX_RETRIES]"
    by (rule attempts_made_le)
  with s have b: "sends (new_events w (snd (make_api_request ep prefix w))) \<le> MAX_RETRIES"
    by simp
  have r: "n \<le> depth \<and> (\<forall>i < n. told_to_wait (reply srv v query (k + i))) \<and>
          \<not> told_to_wait (reply srv v query (k + n)) \<longrightarrow>
            requests_count (snd (make_request srv depth v query k ex)) v =
              requests_count ex v + n + 1 \<and>
            pauses (snd (make_request srv depth v query k ex)) = pauses ex @ replicate n 61 \<and>
            fst (make_request srv depth v query k ex) = returned (reply srv v query (k + n))"
    using make_request_retries[of n depth srv v query k ex] by blast
  have d: "requests_count (snd (make_request srv depth v query k ex)) v
              \<le> requests_count ex v + depth + 1"
    by (rule make_request_bound)
  have e: "(\<forall>i \<le> depth. told_to_wait (reply srv v query (k + i))) \<longrightarrow>
            fst (make_request srv depth v query k ex) = JNames [] \<and>
            requests_count (snd (make_request srv depth v query k ex)) v =
              requests_count ex v + depth + 1 \<and>
            pauses (snd (make_request srv depth v query k ex)) =
              pauses ex @ replicate (depth + 1) 61"
    using make_request_exhausted[of depth srv v query k ex] by blast
  from b c r d e show ?thesis by blast
qed

theorem retries_after_429_witness:
  "0 < limit (limiter fresh_world) \<and>
   sends (new_events fresh_world (snd (make_api_request throttling_endpoint ''e'' fresh_world)))
     \<le> MAX_RETRIES \<and>
   rate_limited (answer throttling_endpoint ''e'' 1) \<and>
   Sleep 120 \<in> set (new_events fresh_world (snd (make_api_request throttling_endpoint ''e'' fresh_world))) \<and>
   (6::nat) \<le> 980 \<and>
   told_to_wait (reply stubborn_server V1 ''e'' 0) \<and>
   told_to_wait (reply stubborn_server V1 ''e'' 5) \<and>
   \<not> told_to_wait (reply stubborn_server V1 ''e'' 6) \<and>
   requests_count (snd (make_request stubborn_server 980 V1 ''e'' 0 new_explorer)) V1 = 7 \<and>
   pauses (snd (make_request stubborn_server 980 V1 ''e'' 0 new_explorer)) = replicate 6 61 \<and>
   fst (make_request stubborn_server 980 V1 ''e'' 0 new_explorer) = JNames [''eve''] \<and>
   told_to_wait (reply refusing_server V1 ''e'' 0) \<and>
   told_to_wait (reply refusing_server V1 ''e'' 3) \<and>
   fst (make_request refusing_server 3 V1 ''e'' 0 new_explorer) = JNames [] \<and>
   requests_count (snd (make_request refusing_server 3 V1 ''e'' 0 new_explorer)) V1 = 4 \<and>
   pauses (snd (make_request refusing_server 3 V1 ''e'' 0 new_explorer)) = replicate 4 61"
proof -
  have l: "0 < limit (limiter fresh_world)" by (simp add: fresh_world_def RATE_LIMIT_def)
  have a: "attempts_made throttling_endpoint ''e'' [0..<MAX_RETRIES] = [0, 1, 2]"
    by code_simp
  have r: "rate_limited (answer throttling_endpoint ''e'' 1)"
    by (simp add: throttling_endpoint_def)
  have f: "\<forall>i \<le> 3. told_to_wait (reply refusing_server V1 ''e'' (0 + i))"
    by (simp add: refusing_server_def)
  note t = retries_after_429[OF l, of throttling_endpoint "''e''" 6 980 stubborn_server V1 "''e''" 0
      new_explorer]
  note u = retries_after_429[OF l, of throttling_endpoint "''e''" 0 3 refusing_server V1 "''e''" 0
      new_explorer]
  from t have 1: "sends (new_events fresh_world (snd (make_api_request throttling_endpoint ''e'' fresh_world)))
     \<le> MAX_RETRIES" by (elim conjE) assumption
  from t a r have 2: "Sleep (60 * (of_nat 1 + 1))
        \<in> set (new_events fresh_world (snd (make_api_request throttling_endpoint ''e'' fresh_world)))"
    by simp
  from t stubborn_server_waits[of V1 "''e''"]
  have 3: "requests_count (snd (make_request stubborn_server 980 V1 ''e'' 0 new_explorer)) V1 = 7"
    "pauses (snd (make_request stubborn_server 980 V1 ''e'' 0 new_explorer)) = replicate 6 61"
    "fst (make_request stubborn_server 980 V1 ''e'' 0 new_explorer) = JNames [''eve'']"
    by (simp_all add: new_explorer_fields stubborn_server_def)
  from u f
  have 4: "fst (make_request refusing_server 3 V1 ''e'' 0 new_explorer) = JNames []"
    "requests_count (snd (make_request refusing_server 3 V1 ''e'' 0 new_explorer)) V1 = 4"
    "pauses (snd (make_request refusing_server 3 V1 ''e'' 0 new_explorer)) = replicate 4 61"
    by (simp_all add: new_explorer_fields)
  have 5: "told_to_wait (reply stubborn_server V1 ''e'' 0)"
    "told_to_wait (reply stubborn_server V1 ''e'' 5)"
    "\<not> told_to_wait (reply stubborn_server V1 ''e'' 6)"
    "told_to_wait (reply refusing_server V1 ''e'' 0)"
    "told_to_wait (reply refusing_server V1 ''e'' 3)"
    by (simp_all add: stubborn_server_def refusing_server_def)
  from l 1 r 2 3 4 5 show ?thesis by simp
qed

section \<open>The request counters\<close>

text \<open>
  C6, as stated, fails for app.py, whose counter goes up by the size of each batch. With
  the prefix e answered 429 twice and then 200, and every other prefix answered at once,
  the first batch of 20 prefixes takes 22 requests, three of them for e, and the counter
  stands at 20.
\<close>

theorem request_counter_counterexample:
  "request_count (bfs_loop throttling_endpoint submission_order 1 bfs_init) = 20 \<and>
   total_attempts throttling_endpoint
     (issued (bfs_loop throttling_endpoint submission_order 1 bfs_init)) = 22 \<and>
   sends (trace (snd (make_api_request throttling_endpoint ''e'' fresh_world))) = 3"
proof -
  have i: "issued (bfs_loop throttling_endpoint submission_order 1 bfs_init) =
      map (\<lambda>c. [c]) ''abcdefghijklmnopqrst''"
    unfolding first_batch by (simp add: bfs_init_def ascii_lowercase_def MAX_WORKERS_def)
  have a: "request_count (bfs_loop throttling_endpoint submission_order 1 bfs_init) = 20"
    unfolding request_count_issued i by simp
  have b: "total_attempts throttling_endpoint (map (\<lambda>c. [c]) ''abcdefghijklmnopqrst'') = 22"
    by code_simp
  have c: "sends (trace (snd (make_api_request throttling_endpoint ''e'' fresh_world))) = 3"
    by code_simp
  from a b c show ?thesis unfolding i by simp
qed

text \<open>
  C6, amended. In the asynchronous client every request sent, retries included, raises
  the counter of its version by one: over any call of make\_request the counter and the
  list of requests sent grow by the same number. In app.py the counter is the number of
  prefixes submitted to the executor, whatever the number of attempts each takes.
\<close>

theorem request_counters:
  "requests_count (snd (make_request srv depth v query k ex)) v + length (requests ex) =
     requests_count ex v + length (requests (snd (make_request srv depth v query k ex))) \<and>
   request_count (bfs_loop ep finish n bfs_init) =
     length (issued (bfs_loop ep finish n bfs_init))"
  using make_request_counts request_count_issued by blast

theorem request_counters_witness:
  "requests_count (snd (make_request busy_server 5 V1 ''e'' 0 new_explorer)) V1 = 3 \<and>
   length (requests (snd (make_request busy_server 5 V1 ''e'' 0 new_explorer))) = 3 \<and>
   fst (make_request busy_server 5 V1 ''e'' 0 new_explorer) = JNames [''eve''] \<and>
   request_count (bfs_loop throttling_endpoint submission_order 1 bfs_init) =
     length (issued (bfs_loop throttling_endpoint submission_order 1 bfs_init))"
proof -
  have le: "(2::nat) \<le> 5" by simp
  from make_request_retries[OF le busy_server_waits, of V1 "''e''" new_explorer]
  have a: "requests_count (snd (make_request busy_server 5 V1 ''e'' 0 new_explorer)) V1 = 3"
    "fst (make_request busy_server 5 V1 ''e'' 0 new_explorer) = JNames [''eve'']"
    by (simp_all add: new_explorer_fields busy_server_def)
  from request_counters[of busy_server 5 V1 "''e''" 0 new_explorer
      throttling_endpoint submission_order 1] a
  show ?thesis by (simp add: new_explorer_fields)
qed
section \<open>The rate of requests\<close>




end
